theory Spec2Isabelle
  imports Main "HOL-Library.Char_ord" "HOL-Library.List_Lexorder" "HOL-Library.Sublist"
begin

section \<open>Python text primitives\<close>

text \<open>
  The script \<^verbatim>\<open>scripts/pdf_to_csv.py\<close> works on Python \<^verbatim>\<open>str\<close> values. A string is
  modelled as a \<^typ>\<open>string\<close>, each \<^typ>\<open>char\<close> read as the code point of the same number
  (U+0000 to U+00FF). The character classes below are the ones Python uses for these code
  points: \<^verbatim>\<open>str.isspace\<close> (also the regular expression class \<^verbatim>\<open>\s\<close>), the decimal digits
  (\<^verbatim>\<open>\d\<close>), the word characters (\<^verbatim>\<open>\w\<close>, which decides \<^verbatim>\<open>\b\<close>), the line boundaries of
  \<^verbatim>\<open>str.splitlines\<close> and the mapping of \<^verbatim>\<open>str.lower\<close>.
\<close>

definition LF :: char where
  "LF = CHR 0x0A"

definition CR :: char where
  "CR = CHR 0x0D"

definition isspace :: "char \<Rightarrow> bool" where
  "isspace c = (c \<in> set [CHR 0x09, CHR 0x0A, CHR 0x0B, CHR 0x0C, CHR 0x0D,
       CHR 0x1C, CHR 0x1D, CHR 0x1E, CHR 0x1F, CHR 0x20, CHR 0x85, CHR 0xA0])"

definition isdigit :: "char \<Rightarrow> bool" where
  "isdigit c = (c \<in> set ''0123456789'')"

definition is_linebreak :: "char \<Rightarrow> bool" where
  "is_linebreak c = (c \<in> set [CHR 0x0A, CHR 0x0B, CHR 0x0C, CHR 0x0D,
       CHR 0x1C, CHR 0x1D, CHR 0x1E, CHR 0x85])"

definition isword :: "char \<Rightarrow> bool" where
  "isword c = (let n = (of_char c :: nat) in
     (48 \<le> n \<and> n \<le> 57) \<or> (65 \<le> n \<and> n \<le> 90) \<or> n = 95 \<or> (97 \<le> n \<and> n \<le> 122) \<or>
     n \<in> set [170, 178, 179, 181, 185, 186, 188, 189, 190] \<or>
     (192 \<le> n \<and> n \<le> 214) \<or> (216 \<le> n \<and> n \<le> 246) \<or> (248 \<le> n \<and> n \<le> 255))"

definition lower_char :: "char \<Rightarrow> char" where
  "lower_char c = (let n = (of_char c :: nat) in
     if (65 \<le> n \<and> n \<le> 90) \<or> (192 \<le> n \<and> n \<le> 222 \<and> n \<noteq> 215)
     then char_of (n + 32) else c)"

definition lower :: "string \<Rightarrow> string" where
  "lower s = map lower_char s"

text \<open>\<^verbatim>\<open>s.strip()\<close> and \<^verbatim>\<open>s.strip(chars)\<close>.\<close>

definition strip :: "string \<Rightarrow> string" where
  "strip s = rev (dropWhile isspace (rev (dropWhile isspace s)))"

definition strip_chars :: "string \<Rightarrow> string \<Rightarrow> string" where
  "strip_chars chars s =
     rev (dropWhile (\<lambda>c. c \<in> set chars) (rev (dropWhile (\<lambda>c. c \<in> set chars) s)))"

definition startswith :: "string \<Rightarrow> string \<Rightarrow> bool" where
  "startswith s p = (take (length p) s = p)"

text \<open>\<^verbatim>\<open>s.find(p)\<close>: the least index at which \<open>p\<close> occurs; \<open>None\<close> stands for \<^verbatim>\<open>-1\<close>.\<close>

fun find_str :: "string \<Rightarrow> string \<Rightarrow> nat option" where
  "find_str [] p = (if p = [] then Some 0 else None)"
| "find_str (c # cs) p =
     (if startswith (c # cs) p then Some 0 else map_option Suc (find_str cs p))"

text \<open>
  \<^verbatim>\<open>s.replace(old, new)\<close>: the occurrences of \<open>old\<close> are replaced from the left, without
  overlap; an empty \<open>old\<close> puts \<open>new\<close> around every character.
\<close>

function replace_from :: "string \<Rightarrow> string \<Rightarrow> string \<Rightarrow> string" where
  "replace_from old new [] = []"
| "replace_from old new (c # cs) =
     (if old \<noteq> [] \<and> startswith (c # cs) old
      then new @ replace_from old new (drop (length old) (c # cs))
      else c # replace_from old new cs)"
  by pat_completeness auto
termination
  by (relation "measure (\<lambda>(old, new, s). length s)") auto

definition replace :: "string \<Rightarrow> string \<Rightarrow> string \<Rightarrow> string" where
  "replace old new s =
     (if old = [] then new @ concat (map (\<lambda>c. c # new) s) else replace_from old new s)"

text \<open>
  \<^verbatim>\<open>text.splitlines()\<close>: a line ends at a line boundary, \<^verbatim>\<open>\r\n\<close> counting as one; the
  boundaries are dropped, and a text that ends in a boundary has no empty last line.
\<close>

function splitlines_from :: "string \<Rightarrow> string \<Rightarrow> string list" where
  "splitlines_from cur [] = (if cur = [] then [] else [cur])"
| "splitlines_from cur (c # cs) =
     (if is_linebreak c
      then cur # splitlines_from [] (if c = CR \<and> startswith cs [LF] then drop 1 cs else cs)
      else splitlines_from (cur @ [c]) cs)"
  by pat_completeness auto
termination
  by (relation "measure (\<lambda>(cur, s). length s)") auto

definition splitlines :: "string \<Rightarrow> string list" where
  "splitlines text = splitlines_from [] text"

text \<open>\<^verbatim>\<open>"\n".join(parts)\<close>.\<close>

fun join_lines :: "string list \<Rightarrow> string" where
  "join_lines [] = []"
| "join_lines [x] = x"
| "join_lines (x # y # ys) = x @ LF # join_lines (y # ys)"

text \<open>
  \<^verbatim>\<open>line.split(":", 1)[1]\<close>: what follows the first colon. The source takes it only from a
  line that starts with \<^verbatim>\<open>sent:\<close>, \<^verbatim>\<open>date:\<close> or \<^verbatim>\<open>subject:\<close>, so the colon is there and
  the index never fails (lemma \<open>after_colon_defined\<close>).
\<close>

definition after_colon :: "string \<Rightarrow> string" where
  "after_colon line = drop 1 (dropWhile (\<lambda>c. c \<noteq> CHR '':'') line)"

section \<open>clean\_text\<close>

text \<open>\<^verbatim>\<open>re.sub(r"=\d{2,3}", "", text)\<close>: an equals sign with two or (greedily) three digits.\<close>

function sub_escape :: "string \<Rightarrow> string" where
  "sub_escape [] = []"
| "sub_escape (c # cs) =
     (if c = CHR ''='' \<and> 2 \<le> length (takeWhile isdigit (take 3 cs))
      then sub_escape (drop (length (takeWhile isdigit (take 3 cs))) cs)
      else c # sub_escape cs)"
  by pat_completeness auto
termination
  by (relation "measure length") auto

text \<open>\<^verbatim>\<open>re.sub(r"\s+", " ", text)\<close>: every maximal run of whitespace becomes one space.\<close>

function sub_ws :: "string \<Rightarrow> string" where
  "sub_ws [] = []"
| "sub_ws (c # cs) =
     (if isspace c then CHR '' '' # sub_ws (dropWhile isspace cs) else c # sub_ws cs)"
  by pat_completeness auto
termination
  by (relation "measure length") (auto simp: length_dropWhile_le less_Suc_eq_le)

definition clean_text :: "string \<Rightarrow> string" where
  "clean_text text =
     (let t1 = replace ''=br>'' [LF] text;
          t2 = sub_escape t1;
          t3 = replace ''=8E'' [] t2;
          t4 = sub_ws t3;
          t5 = replace [CR, LF] [LF] t4
      in strip t5)"

section \<open>normalize\_date\<close>

text \<open>
  \<^verbatim>\<open>dateutil\<close> and \<^verbatim>\<open>datetime\<close> are libraries outside the repository. A \<^verbatim>\<open>datetime\<close> is
  modelled by its wall-clock reading, counted in microseconds from 0001-01-01T00:00:00, and
  its \<^verbatim>\<open>tzinfo\<close>: \<open>None\<close> for a naive value, otherwise the UTC offset in microseconds. The
  parser \<^verbatim>\<open>parser.parse(date_str, fuzzy=True)\<close> is a parameter \<open>parse\<close> that returns the parsed
  value or the exception it raised.
\<close>

datatype py_exception = ParserError | OverflowError | NameError

record datetime =
  wall :: int
  tzinfo :: "int option"

text \<open>The last representable reading is 9999-12-31T23:59:59.999999 (day 3652059).\<close>

definition max_wall :: int where
  "max_wall = 3652059 * 86400000000 - 1"

definition in_range :: "int \<Rightarrow> bool" where
  "in_range w = (0 \<le> w \<and> w \<le> max_wall)"

text \<open>
  \<^verbatim>\<open>dt.astimezone(timezone.utc)\<close> for an aware \<open>dt\<close>: the offset is subtracted, which raises
  \<^verbatim>\<open>OverflowError\<close> when the result is not a representable date.
\<close>

definition astimezone_utc :: "datetime \<Rightarrow> int \<Rightarrow> py_exception + datetime" where
  "astimezone_utc dt off =
     (if in_range (wall dt - off) then Inr \<lparr>wall = wall dt - off, tzinfo = Some 0\<rparr>
      else Inl OverflowError)"

text \<open>\<^verbatim>\<open>dt.isoformat()\<close>, from the reading: the calendar date follows \<^verbatim>\<open>_ord2ymd\<close> of CPython.\<close>

definition days_before_month :: "bool \<Rightarrow> int \<Rightarrow> int" where
  "days_before_month leap m =
     ([0, 0, 31, 59, 90, 120, 151, 181, 212, 243, 273, 304, 334] ! nat m)
       + (if 2 < m \<and> leap then 1 else 0)"

definition days_in_month :: "bool \<Rightarrow> int \<Rightarrow> int" where
  "days_in_month leap m =
     ([0, 31, 28, 31, 30, 31, 30, 31, 31, 30, 31, 30, 31] ! nat m)
       + (if m = 2 \<and> leap then 1 else 0)"

definition ord2ymd :: "int \<Rightarrow> int \<times> int \<times> int" where
  "ord2ymd ordinal =
     (let n = ordinal - 1;
          n400 = n div 146097; n = n mod 146097;
          n100 = n div 36524; n = n mod 36524;
          n4 = n div 1461; n = n mod 1461;
          n1 = n div 365; n = n mod 365;
          year = n400 * 400 + 1 + n100 * 100 + n4 * 4 + n1
      in if n1 = 4 \<or> n100 = 4 then (year - 1, 12, 31)
         else
           (let leap = (n1 = 3 \<and> (n4 \<noteq> 24 \<or> n100 = 3));
                month = (n + 50) div 32;
                preceding = days_before_month leap month
            in if n < preceding
               then (year, month - 1,
                     n - (preceding - days_in_month leap (month - 1)) + 1)
               else (year, month, n - preceding + 1)))"

definition digit_char :: "int \<Rightarrow> char" where
  "digit_char d = ''0123456789'' ! nat (d mod 10)"

fun zero_pad :: "nat \<Rightarrow> int \<Rightarrow> string" where
  "zero_pad 0 n = []"
| "zero_pad (Suc k) n = zero_pad k (n div 10) @ [digit_char n]"

definition format_offset :: "int \<Rightarrow> string" where
  "format_offset off =
     (let a = \<bar>off\<bar>;
          hh = a div 3600000000; r = a mod 3600000000;
          mm = r div 60000000; r2 = r mod 60000000;
          ss = r2 div 1000000; us = r2 mod 1000000
      in (if off < 0 then ''-'' else ''+'') @ zero_pad 2 hh @ '':'' @ zero_pad 2 mm
         @ (if r2 \<noteq> 0 then '':'' @ zero_pad 2 ss else [])
         @ (if us \<noteq> 0 then ''.'' @ zero_pad 6 us else []))"

definition format_reading :: "int \<Rightarrow> string" where
  "format_reading w =
     (let days = w div 86400000000; r = w mod 86400000000;
          ymd = ord2ymd (days + 1);
          hh = r div 3600000000; r1 = r mod 3600000000;
          mm = r1 div 60000000; r2 = r1 mod 60000000;
          ss = r2 div 1000000; us = r2 mod 1000000
      in zero_pad 4 (fst ymd) @ ''-'' @ zero_pad 2 (fst (snd ymd)) @ ''-''
         @ zero_pad 2 (snd (snd ymd)) @ ''T''
         @ zero_pad 2 hh @ '':'' @ zero_pad 2 mm @ '':'' @ zero_pad 2 ss
         @ (if us \<noteq> 0 then ''.'' @ zero_pad 6 us else []))"

definition isoformat :: "datetime \<Rightarrow> string" where
  "isoformat dt =
     format_reading (wall dt)
       @ (case tzinfo dt of None \<Rightarrow> [] | Some off \<Rightarrow> format_offset off)"

text \<open>
  The \<^verbatim>\<open>try\<close> block: every exception of the parser and of the conversion ends in
  \<^verbatim>\<open>except Exception: return None\<close>.
\<close>

definition normalize_date :: "(string \<Rightarrow> py_exception + datetime) \<Rightarrow> string \<Rightarrow> string option" where
  "normalize_date parse date_str =
     (case parse date_str of
        Inl e \<Rightarrow> None
      | Inr dt \<Rightarrow>
          (case tzinfo dt of
             None \<Rightarrow> Some (isoformat (dt\<lparr>tzinfo := Some 0\<rparr>))
           | Some off \<Rightarrow>
               (case astimezone_utc dt off of
                  Inl e \<Rightarrow> None
                | Inr dt' \<Rightarrow> Some (isoformat dt'))))"

text \<open>\<^verbatim>\<open>utc_date or raw_date\<close>: \<^verbatim>\<open>None\<close> and the empty string both give way to the raw string.\<close>

definition or_raw :: "string option \<Rightarrow> string \<Rightarrow> string" where
  "or_raw utc_date raw_date =
     (case utc_date of None \<Rightarrow> raw_date | Some u \<Rightarrow> if u = [] then raw_date else u)"

section \<open>parse\_first\_email\<close>

text \<open>The dictionary \<^verbatim>\<open>headers\<close> of the source, with its five keys.\<close>

record headers =
  From :: string
  To :: string
  Sent :: string
  Subject :: string
  Content :: string

definition init_headers :: headers where
  "init_headers = \<lparr>From = [], To = [], Sent = [], Subject = [], Content = []\<rparr>"

text \<open>\<^verbatim>\<open>clean_text(v.strip().strip('"'))\<close>, the value of a header line after its keyword.\<close>

definition header_value :: "string \<Rightarrow> string" where
  "header_value v = clean_text (strip_chars [CHR 0x22] (strip v))"

text \<open>The conditions of the \<^verbatim>\<open>if\<close> statements of the loop body, on the stripped line.\<close>

definition captures_from :: "headers \<Rightarrow> string \<Rightarrow> bool" where
  "captures_from h line = (startswith (lower line) ''from:'' \<and> From h = [])"

definition captures_to :: "headers \<Rightarrow> string \<Rightarrow> bool" where
  "captures_to h line = (startswith (lower line) ''to:'' \<and> To h = [])"

definition captures_sent :: "headers \<Rightarrow> string \<Rightarrow> bool" where
  "captures_sent h line =
     ((startswith (lower line) ''sent:'' \<or> startswith (lower line) ''date:'') \<and> Sent h = [])"

definition captures_subject :: "headers \<Rightarrow> string \<Rightarrow> bool" where
  "captures_subject h line = (startswith (lower line) ''subject:'' \<and> Subject h = [])"

definition princess_reply :: "headers \<Rightarrow> string \<Rightarrow> bool" where
  "princess_reply h line =
     (find_str (lower (From h)) ''kronprinsessen'' \<noteq> None
      \<and> find_str (lower line) ''den'' \<noteq> None
      \<and> find_str (lower line) ''skrev'' \<noteq> None)"

definition epstein_disclaimer :: "headers \<Rightarrow> string \<Rightarrow> bool" where
  "epstein_disclaimer h line =
     (find_str (lower (From h)) ''epstein'' \<noteq> None
      \<and> (find_str (lower line) ''*****************************'' \<noteq> None
         \<or> find_str (lower line) ''the information contained in this communication is'' \<noteq> None))"

definition all_filled :: "headers \<Rightarrow> bool" where
  "all_filled h = (From h \<noteq> [] \<and> To h \<noteq> [] \<and> Sent h \<noteq> [])"

text \<open>One pass of the \<^verbatim>\<open>for\<close> body: the headers it leaves, or the \<^verbatim>\<open>break\<close>.\<close>

datatype step = Continue headers | Break

definition loop_body :: "(string \<Rightarrow> py_exception + datetime) \<Rightarrow> headers \<Rightarrow> string \<Rightarrow> step" where
  "loop_body parse h raw_line =
     (let line = strip raw_line in
      if line = [] then Continue h
      else if captures_from h line then Continue (h\<lparr>From := header_value (drop 5 line)\<rparr>)
      else if captures_to h line then Continue (h\<lparr>To := header_value (drop 3 line)\<rparr>)
      else if captures_sent h line then
        (let raw_date = header_value (after_colon line);
             utc_date = normalize_date parse raw_date
         in Continue (h\<lparr>Sent := or_raw utc_date raw_date\<rparr>))
      else if captures_subject h line
        then Continue (h\<lparr>Subject := header_value (after_colon line)\<rparr>)
      else if princess_reply h line then Break
      else if epstein_disclaimer h line then Break
      else if all_filled h
        then Continue (h\<lparr>Content := Content h @ '' '' @ [LF] @ clean_text line\<rparr>)
      else Continue h)"

text \<open>The \<^verbatim>\<open>for\<close> loop: the headers when it ends, by exhaustion or by \<^verbatim>\<open>break\<close>.\<close>

fun for_lines :: "(string \<Rightarrow> py_exception + datetime) \<Rightarrow> headers \<Rightarrow> string list \<Rightarrow> headers" where
  "for_lines parse h [] = h"
| "for_lines parse h (l # ls) =
     (case loop_body parse h l of Break \<Rightarrow> h | Continue h' \<Rightarrow> for_lines parse h' ls)"

text \<open>Whether the loop leaves by \<^verbatim>\<open>break\<close> on one of the lines.\<close>

fun breaks :: "(string \<Rightarrow> py_exception + datetime) \<Rightarrow> headers \<Rightarrow> string list \<Rightarrow> bool" where
  "breaks parse h [] = False"
| "breaks parse h (l # ls) =
     (case loop_body parse h l of Break \<Rightarrow> True | Continue h' \<Rightarrow> breaks parse h' ls)"

text \<open>Whether the loop leaves by \<^verbatim>\<open>break\<close> while From, To or Sent is still empty.\<close>

fun breaks_unfilled :: "(string \<Rightarrow> py_exception + datetime) \<Rightarrow> headers \<Rightarrow> string list \<Rightarrow> bool" where
  "breaks_unfilled parse h [] = False"
| "breaks_unfilled parse h (l # ls) =
     (case loop_body parse h l of
        Break \<Rightarrow> \<not> all_filled h
      | Continue h' \<Rightarrow> breaks_unfilled parse h' ls)"

definition parse_first_email :: "(string \<Rightarrow> py_exception + datetime) \<Rightarrow> string \<Rightarrow> headers option" where
  "parse_first_email parse text =
     (let h = for_lines parse init_headers (splitlines text)
      in if From h = [] \<or> To h = [] \<or> Sent h = [] then None else Some h)"

section \<open>remove\_trailing\_text\<close>

text \<open>
  \<^verbatim>\<open>re.search(p, s, re.IGNORECASE)\<close> gives the leftmost position at which the pattern has a
  match; only the start of the match is used. A matcher receives the character before the
  position (for \<^verbatim>\<open>\b\<close>) and the rest of the string, and says whether some match starts there.
\<close>

fun re_search :: "(char option \<Rightarrow> string \<Rightarrow> bool) \<Rightarrow> char option \<Rightarrow> string \<Rightarrow> nat option" where
  "re_search m p [] = (if m p [] then Some 0 else None)"
| "re_search m p (c # cs) =
     (if m p (c # cs) then Some 0 else map_option Suc (re_search m (Some c) cs))"

text \<open>\<^verbatim>\<open>.*?\<close> followed by \<open>k\<close>: any number of characters other than the newline.\<close>

fun lazy_dots :: "(string \<Rightarrow> bool) \<Rightarrow> string \<Rightarrow> bool" where
  "lazy_dots k [] = k []"
| "lazy_dots k (c # cs) = (k (c # cs) \<or> (c \<noteq> LF \<and> lazy_dots k cs))"

text \<open>\<^verbatim>\<open>Den.*?kl\..*?skrev\<close>\<close>

definition norwegian_reply :: "char option \<Rightarrow> string \<Rightarrow> bool" where
  "norwegian_reply p s =
     (startswith (lower s) ''den''
      \<and> lazy_dots (\<lambda>t. startswith (lower t) ''kl.''
                        \<and> lazy_dots (\<lambda>u. startswith (lower u) ''skrev'') (drop 3 t))
           (drop 3 s))"

text \<open>\<^verbatim>\<open>\b\<close>: exactly one of the two neighbours is a word character.\<close>

definition word_boundary :: "char option \<Rightarrow> string \<Rightarrow> bool" where
  "word_boundary p s =
     ((case p of None \<Rightarrow> False | Some c \<Rightarrow> isword c)
        \<noteq> (case s of [] \<Rightarrow> False | c # cs \<Rightarrow> isword c))"

text \<open>\<^verbatim>\<open>\bwrote:?\b\<close>\<close>

definition wrote_at :: "char option \<Rightarrow> string \<Rightarrow> bool" where
  "wrote_at p s =
     (word_boundary p s \<and> startswith (lower s) ''wrote''
      \<and> (startswith (drop 5 s) '':'' \<and> word_boundary (Some (CHR '':'')) (drop 6 s)
         \<or> word_boundary (Some (s ! 4)) (drop 5 s)))"

text \<open>\<^verbatim>\<open>.*?\bwrote:?\b\<close>\<close>

fun dots_wrote :: "char option \<Rightarrow> string \<Rightarrow> bool" where
  "dots_wrote p [] = wrote_at p []"
| "dots_wrote p (c # cs) = (wrote_at p (c # cs) \<or> (c \<noteq> LF \<and> dots_wrote (Some c) cs))"

text \<open>\<^verbatim>\<open>\s*.*?\bwrote:?\b\<close>, what is left of \<^verbatim>\<open>\s+\<close> after its first character.\<close>

fun spaces_dots_wrote :: "char option \<Rightarrow> string \<Rightarrow> bool" where
  "spaces_dots_wrote p [] = dots_wrote p []"
| "spaces_dots_wrote p (c # cs) =
     (dots_wrote p (c # cs) \<or> (isspace c \<and> spaces_dots_wrote (Some c) cs))"

text \<open>\<^verbatim>\<open>\bOn\s+.*?\bwrote:?\b\<close>\<close>

definition english_reply :: "char option \<Rightarrow> string \<Rightarrow> bool" where
  "english_reply p s =
     (word_boundary p s \<and> startswith (lower s) ''on''
      \<and> (case drop 2 s of [] \<Rightarrow> False
          | c # cs \<Rightarrow> isspace c \<and> spaces_dots_wrote (Some c) cs))"

text \<open>\<^verbatim>\<open>full_email[:i]\<close> where \<^verbatim>\<open>i\<close> is the index found, the whole string when none is.\<close>

definition cut_at :: "nat option \<Rightarrow> string \<Rightarrow> string" where
  "cut_at i s = (case i of None \<Rightarrow> s | Some n \<Rightarrow> take n s)"

definition remove_trailing_text :: "string \<Rightarrow> string" where
  "remove_trailing_text full_email =
     (let e1 = (case find_str (lower full_email) ''the information contained in this'' of
                  None \<Rightarrow> full_email
                | Some disclaimer_index \<Rightarrow>
                    (let e = take disclaimer_index full_email
                     in cut_at (find_str (lower e) ''please note'') e));
          e2 = cut_at (find_str (lower e1) ''sent from my '') e1;
          e3 = cut_at (find_str (lower e2) ''sendt fra min '') e2;
          e4 = cut_at (re_search norwegian_reply None e3) e3;
          e5 = cut_at (re_search english_reply None e4) e4
      in replace ''*'' [] e5)"

section \<open>The script\<close>

text \<open>
  A document is its path and the text \<^verbatim>\<open>extract_text()\<close> gives for each of its pages
  (\<open>None\<close> where a page has none). The module-level names of the script are the fields of
  the state; \<^verbatim>\<open>sorted_emails\<close> is \<open>None\<close> as long as the name is not bound.
\<close>

record email = headers +
  Path :: string
  FileName :: string

record pdf =
  pdf_file :: string
  pages :: "string option list"

record script =
  emails :: "email list"
  total_emails :: nat
  failed :: "string list"
  sorted_emails :: "email list option"

definition basename :: "string \<Rightarrow> string" where
  "basename p = rev (takeWhile (\<lambda>c. c \<noteq> CHR ''/'') (rev p))"

definition pages_removed :: string where
  "pages_removed = [LF] @ '' ** Pages has been removed, see source for all pages **''"

text \<open>\<^verbatim>\<open>sorted(emails, key=..., reverse=True)\<close>: descending and stable.\<close>

definition sorted_desc :: "email list \<Rightarrow> email list" where
  "sorted_desc es = rev (sort_key Sent (rev es))"

definition process_pdf :: "(string \<Rightarrow> py_exception + datetime) \<Rightarrow> script \<Rightarrow> pdf \<Rightarrow> script" where
  "process_pdf parse st doc =
     (let st1 = st\<lparr>total_emails := total_emails st + 1\<rparr>;
          full_text = join_lines (map (\<lambda>t. case t of None \<Rightarrow> [] | Some x \<Rightarrow> x) (take 2 (pages doc)))
      in case parse_first_email parse full_text of
           None \<Rightarrow> st1\<lparr>failed := failed st1 @ [pdf_file doc]\<rparr>
         | Some h \<Rightarrow>
             (let e = headers.extend h (email.fields (pdf_file doc) (basename (pdf_file doc)));
                  e' = (if Content e \<noteq> []
                        then e\<lparr>Content := remove_trailing_text (Content e)
                                   @ (if 2 < length (pages doc) then pages_removed else [])\<rparr>
                        else e);
                  st2 = st1\<lparr>emails := emails st1 @ [e']\<rparr>
              in st2\<lparr>sorted_emails := Some (sorted_desc (emails st2))\<rparr>))"

definition init_script :: script where
  "init_script = \<lparr>emails = [], total_emails = 0, failed = [], sorted_emails = None\<rparr>"

text \<open>
  What the script leaves behind: the rows written to the CSV file, the summary written to
  the statistics file (\<open>None\<close> when it was not written) and the exception that ended the
  run, if any.
\<close>

record stats =
  successfull :: nat
  total :: nat
  failed_list :: "string list"

record outputs =
  csv_rows :: "string list list"
  stats_file :: "stats option"
  raised :: "py_exception option"

definition fieldnames :: "string list" where
  "fieldnames = [''Path'', ''FileName'', ''From'', ''To'', ''Sent'', ''Subject'', ''Content'']"

definition csv_row :: "email \<Rightarrow> string list" where
  "csv_row e = [Path e, FileName e, From e, To e, Sent e, Subject e, Content e]"

text \<open>
  After the loop: the header row is written first; reading \<^verbatim>\<open>sorted_emails\<close> in the next
  statement raises \<^verbatim>\<open>NameError\<close> when no pass of the loop has bound it.
\<close>

definition write_outputs :: "script \<Rightarrow> outputs" where
  "write_outputs st =
     (case sorted_emails st of
        None \<Rightarrow> \<lparr>csv_rows = [fieldnames], stats_file = None, raised = Some NameError\<rparr>
      | Some se \<Rightarrow>
          \<lparr>csv_rows = fieldnames # map csv_row se,
           stats_file = Some \<lparr>successfull = length se, total = total_emails st,
                              failed_list = failed st\<rparr>,
           raised = None\<rparr>)"

definition run_script :: "(string \<Rightarrow> py_exception + datetime) \<Rightarrow> pdf list \<Rightarrow> outputs" where
  "run_script parse docs = write_outputs (foldl (process_pdf parse) init_script docs)"

section \<open>Properties of remove\_trailing\_text\<close>

lemma replace_star: "replace_from ''*'' [] s = filter (\<lambda>c. c \<noteq> CHR ''*'') s"
  by (induction s) (auto simp: startswith_def)

lemma cut_at_prefix: "prefix (cut_at i s) s"
  by (cases i) (simp_all add: cut_at_def take_is_prefix)

lemma remove_trailing_text_prefix:
  "\<exists>p. prefix p body \<and> remove_trailing_text body = filter (\<lambda>c. c \<noteq> CHR ''*'') p"
proof -
  define e1 where "e1 = (case find_str (lower body) ''the information contained in this'' of
                  None \<Rightarrow> body
                | Some disclaimer_index \<Rightarrow>
                    (let e = take disclaimer_index body
                     in cut_at (find_str (lower e) ''please note'') e))"
  define e2 where "e2 = cut_at (find_str (lower e1) ''sent from my '') e1"
  define e3 where "e3 = cut_at (find_str (lower e2) ''sendt fra min '') e2"
  define e4 where "e4 = cut_at (re_search norwegian_reply None e3) e3"
  define e5 where "e5 = cut_at (re_search english_reply None e4) e4"
  have p1: "prefix e1 body"
    unfolding e1_def
    by (auto split: option.splits simp: Let_def take_is_prefix
          intro: prefix_order.trans[OF cut_at_prefix])
  have "prefix e5 e4" "prefix e4 e3" "prefix e3 e2" "prefix e2 e1"
    unfolding e5_def e4_def e3_def e2_def by (rule cut_at_prefix)+
  with p1 have "prefix e5 body"
    by (meson prefix_order.trans)
  moreover have "remove_trailing_text body = filter (\<lambda>c. c \<noteq> CHR ''*'') e5"
    unfolding remove_trailing_text_def Let_def e1_def e2_def e3_def e4_def e5_def
    by (simp add: replace_def replace_star Let_def)
  ultimately show ?thesis by blast
qed

text \<open>
  Claim C10. For every body, the output of \<open>remove_trailing_text\<close> is some prefix of the body
  with every asterisk deleted; so it is never longer than the body and holds no asterisk.
\<close>

theorem remove_trailing_text_is_starless_prefix:
  "(\<exists>p. prefix p body \<and> remove_trailing_text body = filter (\<lambda>c. c \<noteq> CHR ''*'') p)
   \<and> length (remove_trailing_text body) \<le> length body
   \<and> CHR ''*'' \<notin> set (remove_trailing_text body)"
proof -
  obtain p where p: "prefix p body"
    and r: "remove_trailing_text body = filter (\<lambda>c. c \<noteq> CHR ''*'') p"
    using remove_trailing_text_prefix by blast
  have "length p \<le> length body" using p by (rule prefix_length_le)
  then have "length (remove_trailing_text body) \<le> length body"
    unfolding r by (rule le_trans[OF length_filter_le])
  moreover have "CHR ''*'' \<notin> set (remove_trailing_text body)" using r by simp
  ultimately show ?thesis using p r by blast
qed

section \<open>The result of parse\_first\_email\<close>

text \<open>
  Claim C1. \<open>parse_first_email\<close> returns \<open>None\<close> exactly when From, To or Sent is still empty
  when the scan of the lines has ended; the empty text gives \<open>None\<close>; and in a record that is
  returned, From, To and Sent are all non-empty.
\<close>

theorem parse_first_email_none_iff:
  "(parse_first_email parse text = None \<longleftrightarrow>
      (From (for_lines parse init_headers (splitlines text)) = []
       \<or> To (for_lines parse init_headers (splitlines text)) = []
       \<or> Sent (for_lines parse init_headers (splitlines text)) = []))
   \<and> parse_first_email parse [] = None
   \<and> (\<forall>r. parse_first_email parse text = Some r \<longrightarrow> From r \<noteq> [] \<and> To r \<noteq> [] \<and> Sent r \<noteq> [])"
  by (auto simp: parse_first_email_def Let_def splitlines_def init_headers_def)

text \<open>
  An instance: a text with the three headers gives a record with non-empty fields, a text
  without a Sent line gives \<open>None\<close>. The parser used here finds no date, as \<^verbatim>\<open>dateutil\<close>
  does on the word \<^verbatim>\<open>soon\<close>.
\<close>

theorem parse_first_email_none_iff_witness:
  "parse_first_email (\<lambda>s. Inl ParserError) (join_lines [''From: Alice'', ''To: Bob'', ''Sent: soon''])
     = Some \<lparr>From = ''Alice'', To = ''Bob'', Sent = ''soon'', Subject = [], Content = []\<rparr>
   \<and> From \<lparr>From = ''Alice'', To = ''Bob'', Sent = ''soon'', Subject = [], Content = []\<rparr> \<noteq> []
   \<and> parse_first_email (\<lambda>s. Inl ParserError) (join_lines [''From: Alice'', ''To: Bob'']) = None
   \<and> Sent (for_lines (\<lambda>s. Inl ParserError) init_headers
           (splitlines (join_lines [''From: Alice'', ''To: Bob'']))) = []"
proof -
  have a: "parse_first_email (\<lambda>s. Inl ParserError)
        (join_lines [''From: Alice'', ''To: Bob'', ''Sent: soon''])
     = Some \<lparr>From = ''Alice'', To = ''Bob'', Sent = ''soon'', Subject = [], Content = []\<rparr>"
    by code_simp
  have b: "parse_first_email (\<lambda>s. Inl ParserError) (join_lines [''From: Alice'', ''To: Bob'']) = None"
    by code_simp
  have c: "Sent (for_lines (\<lambda>s. Inl ParserError) init_headers
           (splitlines (join_lines [''From: Alice'', ''To: Bob'']))) = []"
    by code_simp
  show ?thesis
    using a b c
      parse_first_email_none_iff [of "\<lambda>s. Inl ParserError"
        "join_lines [''From: Alice'', ''To: Bob'', ''Sent: soon'']"]
    by simp
qed

section \<open>The script on an empty directory\<close>

text \<open>
  Claim C8. With no matching document the outputs are to hold the header row alone and a
  summary with counts 0 and no failure. The script does not get there: no pass of the loop
  has bound \<^verbatim>\<open>sorted_emails\<close>, so after the header row the run ends in \<^verbatim>\<open>NameError\<close> and the
  summary is never written.
\<close>

theorem no_documents_raises:
  "run_script parse [] =
     \<lparr>csv_rows = [fieldnames], stats_file = None, raised = Some NameError\<rparr>"
  by (simp add: run_script_def write_outputs_def init_script_def)

section \<open>Properties of clean\_text\<close>

lemma sub_ws_space: "c \<in> set (sub_ws s) \<Longrightarrow> isspace c \<Longrightarrow> c = CHR '' ''"
  by (induction s rule: sub_ws.induct) (auto split: if_splits)

lemma sub_ws_hd: "s \<noteq> [] \<Longrightarrow> \<not> isspace (hd s) \<Longrightarrow> sub_ws s \<noteq> [] \<and> hd (sub_ws s) = hd s"
  by (cases s) auto

lemma sub_ws_no_run: "successively (\<lambda>a b. \<not> (isspace a \<and> isspace b)) (sub_ws s)"
proof (induction s rule: sub_ws.induct)
  case 1
  then show ?case by simp
next
  case (2 c cs)
  show ?case
  proof (cases "isspace c")
    case True
    show ?thesis
    proof (cases "dropWhile isspace cs = []")
      case True
      with \<open>isspace c\<close> show ?thesis by (simp del: dropWhile_eq_Nil_conv)
    next
      case False
      then have "\<not> isspace (hd (dropWhile isspace cs))" by (rule hd_dropWhile)
      with False have "sub_ws (dropWhile isspace cs) \<noteq> []"
        "\<not> isspace (hd (sub_ws (dropWhile isspace cs)))"
        using sub_ws_hd[of "dropWhile isspace cs"] by simp_all
      with \<open>isspace c\<close> 2 show ?thesis
        by (simp add: successively_Cons)
    qed
  next
    case False
    with 2 show ?thesis by (auto simp: successively_Cons)
  qed
qed

lemma replace_crlf_absent: "CR \<notin> set s \<Longrightarrow> replace_from [CR, LF] [LF] s = s"
  by (induction s) (auto simp: startswith_def)

lemma strip_sublist: "\<exists>a b. s = a @ strip s @ b"
proof -
  have "s = takeWhile isspace s @ dropWhile isspace s" by simp
  moreover have "rev (dropWhile isspace s) =
      takeWhile isspace (rev (dropWhile isspace s)) @ dropWhile isspace (rev (dropWhile isspace s))"
    by simp
  then have "dropWhile isspace s = strip s @ rev (takeWhile isspace (rev (dropWhile isspace s)))"
    unfolding strip_def by (metis rev_append rev_rev_ident)
  ultimately show ?thesis by metis
qed

lemma strip_no_lead: "takeWhile isspace (strip s) = []"
proof (cases "strip s = []")
  case True
  then show ?thesis by simp
next
  case False
  define d where "d = dropWhile isspace s"
  have sd: "strip s = rev (dropWhile isspace (rev d))" by (simp add: strip_def d_def)
  with False have dn: "d \<noteq> []" by auto
  then have "\<not> isspace (hd d)" unfolding d_def by (rule hd_dropWhile)
  obtain b where "d = strip s @ b"
    using sd by (metis rev_append rev_rev_ident takeWhile_dropWhile_id)
  with False have "hd (strip s) = hd d" by simp
  with \<open>\<not> isspace (hd d)\<close> False show ?thesis
    by (cases "strip s") auto
qed

lemma strip_no_trail: "takeWhile isspace (rev (strip s)) = []"
proof (cases "strip s = []")
  case True
  then show ?thesis by simp
next
  case False
  then have "dropWhile isspace (rev (dropWhile isspace s)) \<noteq> []" by (simp add: strip_def)
  then have "\<not> isspace (hd (dropWhile isspace (rev (dropWhile isspace s))))" by (rule hd_dropWhile)
  with False show ?thesis
    by (cases "dropWhile isspace (rev (dropWhile isspace s))") (auto simp: strip_def)
qed

lemma clean_text_sub_ws:
  "clean_text s = strip (sub_ws (replace ''=8E'' [] (sub_escape (replace ''=br>'' [LF] s))))"
proof -
  have "CR \<notin> set (sub_ws t)" for t
    using sub_ws_space[of CR t] by (auto simp: isspace_def CR_def)
  then show ?thesis
    by (simp add: clean_text_def Let_def replace_def replace_crlf_absent)
qed

text \<open>
  Claim C9. The output of \<open>clean_text\<close> holds no newline and no carriage return, no two
  whitespace characters in a row, and no whitespace at its start or at its end; so the
  newline put in for the soft-break marker does not survive either.
\<close>

theorem clean_text_normal_form:
  "LF \<notin> set (clean_text s) \<and> CR \<notin> set (clean_text s)
   \<and> successively (\<lambda>a b. \<not> (isspace a \<and> isspace b)) (clean_text s)
   \<and> takeWhile isspace (clean_text s) = []
   \<and> takeWhile isspace (rev (clean_text s)) = []"
proof -
  define t where "t = sub_ws (replace ''=8E'' [] (sub_escape (replace ''=br>'' [LF] s)))"
  have ct: "clean_text s = strip t" by (simp add: clean_text_sub_ws t_def)
  obtain a b where ab: "t = a @ strip t @ b" using strip_sublist by blast
  have "LF \<notin> set t" "CR \<notin> set t"
    using sub_ws_space[of LF] sub_ws_space[of CR] unfolding t_def
    by (auto simp: isspace_def CR_def LF_def)
  then have 1: "LF \<notin> set (strip t)" "CR \<notin> set (strip t)"
    using ab by (metis Un_iff set_append)+
  have "successively (\<lambda>a b. \<not> (isspace a \<and> isspace b)) t"
    unfolding t_def by (rule sub_ws_no_run)
  then have 2: "successively (\<lambda>a b. \<not> (isspace a \<and> isspace b)) (strip t)"
    using ab by (metis successively_append_iff)
  show ?thesis
    unfolding ct using 1 2 strip_no_lead strip_no_trail by simp
qed

theorem clean_text_normal_form_witness:
  "clean_text ''  a=br>b   c '' = ''a b c''
   \<and> LF \<notin> set (clean_text ''  a=br>b   c '')
   \<and> successively (\<lambda>a b. \<not> (isspace a \<and> isspace b)) (clean_text ''  a=br>b   c '')"
proof -
  have "clean_text ''  a=br>b   c '' = ''a b c''"
    by code_simp
  then show ?thesis
    using clean_text_normal_form [of "''  a=br>b   c ''"] by simp
qed

section \<open>Properties of normalize\_date\<close>

lemma format_offset_utc: "format_offset 0 = ''+00:00''"
  by code_simp

lemma isoformat_utc_suffix: "tzinfo dt = Some 0 \<Longrightarrow> \<exists>d. isoformat dt = d @ ''+00:00''"
  by (simp add: isoformat_def format_offset_utc)

text \<open>
  Claim C7, as the code has it. \<open>normalize_date\<close> always returns: \<open>None\<close> when the parser
  raises, and the caller then keeps the raw string; for a parsed value without time zone,
  the ISO string of the same reading marked as UTC; for a parsed value with a time zone,
  the ISO string of the same instant in UTC when that instant is a representable date, and
  \<open>None\<close> (the raw string for the caller) when it is not, since the \<^verbatim>\<open>OverflowError\<close> of the
  conversion is caught like a parse failure. Every string returned ends in \<^verbatim>\<open>+00:00\<close>.
\<close>

theorem normalize_date_cases:
  "(\<forall>e. parse s = Inl e \<longrightarrow>
        normalize_date parse s = None \<and> or_raw (normalize_date parse s) s = s)
   \<and> (\<forall>dt. parse s = Inr dt \<and> tzinfo dt = None \<longrightarrow>
        normalize_date parse s = Some (isoformat \<lparr>wall = wall dt, tzinfo = Some 0\<rparr>))
   \<and> (\<forall>dt off. parse s = Inr dt \<and> tzinfo dt = Some off \<and> in_range (wall dt - off) \<longrightarrow>
        normalize_date parse s = Some (isoformat \<lparr>wall = wall dt - off, tzinfo = Some 0\<rparr>))
   \<and> (\<forall>dt off. parse s = Inr dt \<and> tzinfo dt = Some off \<and> \<not> in_range (wall dt - off) \<longrightarrow>
        normalize_date parse s = None \<and> or_raw (normalize_date parse s) s = s)
   \<and> (\<forall>u. normalize_date parse s = Some u \<longrightarrow> (\<exists>d. u = d @ ''+00:00''))"
proof -
  have upd: "dt\<lparr>tzinfo := Some 0\<rparr> = \<lparr>wall = wall dt, tzinfo = Some 0\<rparr>" for dt :: datetime
    by (cases dt) simp
  have c1: "\<forall>e. parse s = Inl e \<longrightarrow>
        normalize_date parse s = None \<and> or_raw (normalize_date parse s) s = s"
    by (simp add: normalize_date_def or_raw_def)
  have c2: "\<forall>dt. parse s = Inr dt \<and> tzinfo dt = None \<longrightarrow>
        normalize_date parse s = Some (isoformat \<lparr>wall = wall dt, tzinfo = Some 0\<rparr>)"
    by (simp add: normalize_date_def upd)
  have c3: "\<forall>dt off. parse s = Inr dt \<and> tzinfo dt = Some off \<and> in_range (wall dt - off) \<longrightarrow>
        normalize_date parse s = Some (isoformat \<lparr>wall = wall dt - off, tzinfo = Some 0\<rparr>)"
    by (simp add: normalize_date_def astimezone_utc_def)
  have c4: "\<forall>dt off. parse s = Inr dt \<and> tzinfo dt = Some off \<and> \<not> in_range (wall dt - off) \<longrightarrow>
        normalize_date parse s = None \<and> or_raw (normalize_date parse s) s = s"
    by (simp add: normalize_date_def astimezone_utc_def or_raw_def)
  have c5: "\<forall>u. normalize_date parse s = Some u \<longrightarrow> (\<exists>d. u = d @ ''+00:00'')"
  proof (intro allI impI)
    fix u assume u: "normalize_date parse s = Some u"
    then obtain dt where "u = isoformat dt" "tzinfo dt = Some 0"
      by (auto simp: normalize_date_def astimezone_utc_def
            split: sum.splits option.splits if_splits)
    then show "\<exists>d. u = d @ ''+00:00''"
      using isoformat_utc_suffix by blast
  qed
  show ?thesis
    using c1 c2 c3 c4 c5 by (intro conjI)
qed

text \<open>
  Instances: 2024-01-05T10:00 at offset -05:00 and without offset, and a string in which the
  parser finds no date.
\<close>

theorem normalize_date_cases_witness:
  "normalize_date (\<lambda>s. Inr \<lparr>wall = 63840045600000000, tzinfo = Some (- 18000000000)\<rparr>)
     ''Jan 5 2024 10:00 -05:00'' = Some ''2024-01-05T15:00:00+00:00''
   \<and> normalize_date (\<lambda>s. Inr \<lparr>wall = 63840045600000000, tzinfo = None\<rparr>)
     ''Jan 5 2024 10:00'' = Some ''2024-01-05T10:00:00+00:00''
   \<and> normalize_date (\<lambda>s. Inl ParserError) ''soon'' = None
   \<and> or_raw (normalize_date (\<lambda>s. Inl ParserError) ''soon'') ''soon'' = ''soon''"
proof -
  have i1: "isoformat \<lparr>wall = 63840045600000000 - (- 18000000000), tzinfo = Some 0\<rparr>
      = ''2024-01-05T15:00:00+00:00''"
    by code_simp
  have i2: "isoformat \<lparr>wall = 63840045600000000, tzinfo = Some 0\<rparr> = ''2024-01-05T10:00:00+00:00''"
    by code_simp
  have r: "in_range (63840045600000000 - (- 18000000000))"
    by (simp add: in_range_def max_wall_def)
  show ?thesis
    using i1 i2 r
      normalize_date_cases [of "\<lambda>s. Inr \<lparr>wall = 63840045600000000, tzinfo = Some (- 18000000000)\<rparr>"
         "''Jan 5 2024 10:00 -05:00''"]
      normalize_date_cases [of "\<lambda>s. Inr \<lparr>wall = 63840045600000000, tzinfo = None\<rparr>"
         "''Jan 5 2024 10:00''"]
      normalize_date_cases [of "\<lambda>s. Inl ParserError" "''soon''"]
    by (simp add: or_raw_def)
qed

text \<open>
  Claim C7 as stated fails where the parse succeeds and the conversion overflows:
  \<^verbatim>\<open>9999-12-31 23:59:59 -05:00\<close> parses to an aware value whose UTC equivalent lies in the
  year 10000, \<^verbatim>\<open>astimezone\<close> raises \<^verbatim>\<open>OverflowError\<close>, and the result is \<open>None\<close>, not an ISO
  string.
\<close>

theorem normalize_date_overflow_counterexample:
  "normalize_date (\<lambda>s. Inr \<lparr>wall = max_wall - 999999, tzinfo = Some (- 18000000000)\<rparr>)
     ''9999-12-31 23:59:59 -05:00'' = None"
  by (simp add: normalize_date_def astimezone_utc_def in_range_def max_wall_def)

section \<open>The loop of parse\_first\_email\<close>

text \<open>The passes of the loop body, one case for each branch of the source.\<close>

lemma startswith_Cons:
  "startswith s (a # p) \<longleftrightarrow> (\<exists>t. s = a # t \<and> startswith t p)"
  by (cases s) (auto simp: startswith_def)

lemma lower_Nil_iff: "lower s = [] \<longleftrightarrow> s = []"
  by (simp add: lower_def)

lemma loop_body_cases:
  obtains
    (blank) "strip l = []" "loop_body parse h l = Continue h"
  | (hfrom) "strip l \<noteq> []" "captures_from h (strip l)"
      "loop_body parse h l = Continue (h\<lparr>From := header_value (drop 5 (strip l))\<rparr>)"
  | (hto) "strip l \<noteq> []" "\<not> captures_from h (strip l)" "captures_to h (strip l)"
      "loop_body parse h l = Continue (h\<lparr>To := header_value (drop 3 (strip l))\<rparr>)"
  | (hsent) "strip l \<noteq> []" "\<not> captures_from h (strip l)" "\<not> captures_to h (strip l)"
      "captures_sent h (strip l)"
      "loop_body parse h l =
         Continue (h\<lparr>Sent := or_raw (normalize_date parse (header_value (after_colon (strip l))))
                                   (header_value (after_colon (strip l)))\<rparr>)"
  | (hsubject) "strip l \<noteq> []" "\<not> captures_from h (strip l)" "\<not> captures_to h (strip l)"
      "\<not> captures_sent h (strip l)" "captures_subject h (strip l)"
      "loop_body parse h l = Continue (h\<lparr>Subject := header_value (after_colon (strip l))\<rparr>)"
  | (brk) "strip l \<noteq> []" "\<not> captures_from h (strip l)" "\<not> captures_to h (strip l)"
      "\<not> captures_sent h (strip l)" "\<not> captures_subject h (strip l)"
      "princess_reply h (strip l) \<or> epstein_disclaimer h (strip l)"
      "loop_body parse h l = Break"
  | (content) "strip l \<noteq> []" "\<not> captures_from h (strip l)" "\<not> captures_to h (strip l)"
      "\<not> captures_sent h (strip l)" "\<not> captures_subject h (strip l)"
      "\<not> princess_reply h (strip l)" "\<not> epstein_disclaimer h (strip l)" "all_filled h"
      "loop_body parse h l =
         Continue (h\<lparr>Content := Content h @ '' '' @ [LF] @ clean_text (strip l)\<rparr>)"
  | (skip) "strip l \<noteq> []" "\<not> captures_from h (strip l)" "\<not> captures_to h (strip l)"
      "\<not> captures_sent h (strip l)" "\<not> captures_subject h (strip l)"
      "\<not> princess_reply h (strip l)" "\<not> epstein_disclaimer h (strip l)" "\<not> all_filled h"
      "loop_body parse h l = Continue h"
proof (cases "strip l = []")
  case True
  then have "loop_body parse h l = Continue h" by (simp add: loop_body_def)
  with True show ?thesis using that(1) by blast
next
  case ne: False
  show ?thesis
  proof (cases "captures_from h (strip l)")
    case True
    with ne have "loop_body parse h l = Continue (h\<lparr>From := header_value (drop 5 (strip l))\<rparr>)"
      by (simp add: loop_body_def)
    with ne True show ?thesis using that(2) by blast
  next
    case nf: False
    show ?thesis
    proof (cases "captures_to h (strip l)")
      case True
      with ne nf have "loop_body parse h l = Continue (h\<lparr>To := header_value (drop 3 (strip l))\<rparr>)"
        by (simp add: loop_body_def)
      with ne nf True show ?thesis using that(3) by blast
    next
      case nt: False
      show ?thesis
      proof (cases "captures_sent h (strip l)")
        case True
        with ne nf nt have "loop_body parse h l =
         Continue (h\<lparr>Sent := or_raw (normalize_date parse (header_value (after_colon (strip l))))
                                   (header_value (after_colon (strip l)))\<rparr>)"
          by (simp add: loop_body_def Let_def)
        with ne nf nt True show ?thesis using that(4) by blast
      next
        case ns: False
        show ?thesis
        proof (cases "captures_subject h (strip l)")
          case True
          with ne nf nt ns have "loop_body parse h l = Continue (h\<lparr>Subject := header_value (after_colon (strip l))\<rparr>)"
            by (simp add: loop_body_def)
          with ne nf nt ns True show ?thesis using that(5) by blast
        next
          case nj: False
          show ?thesis
          proof (cases "princess_reply h (strip l) \<or> epstein_disclaimer h (strip l)")
            case True
            with ne nf nt ns nj have "loop_body parse h l = Break"
              by (auto simp: loop_body_def Let_def)
            with ne nf nt ns nj True show ?thesis using that(6) by blast
          next
            case nb: False
            show ?thesis
            proof (cases "all_filled h")
              case True
              with ne nf nt ns nj nb have "loop_body parse h l =
                  Continue (h\<lparr>Content := Content h @ '' '' @ [LF] @ clean_text (strip l)\<rparr>)"
                by (simp add: loop_body_def Let_def)
              with ne nf nt ns nj nb True show ?thesis using that(7) by blast
            next
              case False
              with ne nf nt ns nj nb have "loop_body parse h l = Continue h"
                by (simp add: loop_body_def Let_def)
              with ne nf nt ns nj nb False show ?thesis using that(8) by blast
            qed
          qed
        qed
      qed
    qed
  qed
qed

lemma loop_body_stable:
  assumes "loop_body parse h l = Continue h'"
  shows "From h \<noteq> [] \<Longrightarrow> From h' = From h"
    and "To h \<noteq> [] \<Longrightarrow> To h' = To h"
    and "Sent h \<noteq> [] \<Longrightarrow> Sent h' = Sent h"
    and "Subject h \<noteq> [] \<Longrightarrow> Subject h' = Subject h"
proof -
  show "From h \<noteq> [] \<Longrightarrow> From h' = From h"
    using assms by (cases rule: loop_body_cases[of l parse h]) (auto simp: captures_from_def)
  show "To h \<noteq> [] \<Longrightarrow> To h' = To h"
    using assms by (cases rule: loop_body_cases[of l parse h]) (auto simp: captures_to_def)
  show "Sent h \<noteq> [] \<Longrightarrow> Sent h' = Sent h"
    using assms by (cases rule: loop_body_cases[of l parse h]) (auto simp: captures_sent_def)
  show "Subject h \<noteq> [] \<Longrightarrow> Subject h' = Subject h"
    using assms by (cases rule: loop_body_cases[of l parse h]) (auto simp: captures_subject_def)
qed





lemma for_lines_append:
  "\<not> breaks parse h xs \<Longrightarrow>
     for_lines parse h (xs @ ys) = for_lines parse (for_lines parse h xs) ys"
proof (induction xs arbitrary: h)
  case (Cons x xs)
  then show ?case by (cases "loop_body parse h x") simp_all
qed simp

lemma for_lines_break:
  "loop_body parse (for_lines parse h pre) l = Break \<Longrightarrow>
     for_lines parse h (pre @ l # post) = for_lines parse h pre"
proof (induction pre arbitrary: h)
  case (Cons x xs)
  then show ?case by (cases "loop_body parse h x") simp_all
qed simp

lemma to_not_from: "startswith s ''to:'' \<Longrightarrow> \<not> startswith s ''from:''"
  by (auto simp: startswith_Cons)

lemma sent_not_from_to:
  "startswith s ''sent:'' \<or> startswith s ''date:'' \<Longrightarrow>
     \<not> startswith s ''from:'' \<and> \<not> startswith s ''to:''"
  by (auto simp: startswith_Cons)


lemma startswith_nonempty: "startswith (lower s) (a # p) \<Longrightarrow> s \<noteq> []"
  by (auto simp: startswith_Cons lower_def)

lemma loop_body_from:
  assumes "startswith (lower (strip l)) ''from:''" "From h = []"
  shows "loop_body parse h l = Continue (h\<lparr>From := header_value (drop 5 (strip l))\<rparr>)"
proof -
  have "strip l \<noteq> []" using assms(1) by (rule startswith_nonempty)
  then show ?thesis using assms by (simp add: loop_body_def captures_from_def)
qed

lemma loop_body_to:
  assumes "startswith (lower (strip l)) ''to:''" "To h = []"
  shows "loop_body parse h l = Continue (h\<lparr>To := header_value (drop 3 (strip l))\<rparr>)"
proof -
  have "strip l \<noteq> []" using assms(1) by (rule startswith_nonempty)
  moreover have "\<not> captures_from h (strip l)"
    using to_not_from[OF assms(1)] by (simp add: captures_from_def)
  ultimately show ?thesis using assms by (simp add: loop_body_def captures_to_def)
qed

lemma loop_body_sent:
  assumes "startswith (lower (strip l)) ''sent:'' \<or> startswith (lower (strip l)) ''date:''"
    and "Sent h = []"
  shows "loop_body parse h l =
       Continue (h\<lparr>Sent := or_raw (normalize_date parse (header_value (after_colon (strip l))))
                                 (header_value (after_colon (strip l)))\<rparr>)"
proof -
  have "strip l \<noteq> []" using assms(1) startswith_nonempty by blast
  moreover have "\<not> captures_from h (strip l)" "\<not> captures_to h (strip l)"
    using sent_not_from_to[OF assms(1)] by (simp_all add: captures_from_def captures_to_def)
  moreover have "captures_sent h (strip l)"
    using assms by (simp add: captures_sent_def)
  ultimately show ?thesis by (simp add: loop_body_def Let_def)
qed


lemma lower_char_code: "(of_char (lower_char c) :: nat) =
    (if (65 \<le> (of_char c :: nat) \<and> (of_char c :: nat) \<le> 90)
        \<or> (192 \<le> (of_char c :: nat) \<and> (of_char c :: nat) \<le> 222 \<and> (of_char c :: nat) \<noteq> 215)
     then of_char c + 32 else of_char c)"
  by (simp add: lower_char_def Let_def of_char_of)

lemma lower_char_colon: "lower_char c = CHR '':'' \<Longrightarrow> c = CHR '':''"
proof -
  assume a: "lower_char c = CHR '':''"
  have "(of_char (lower_char c) :: nat) = 58" unfolding a by simp
  then have "(of_char c :: nat) = 58"
    unfolding lower_char_code by (simp split: if_splits)
  then have "(of_char c :: nat) = of_char (CHR '':'')" by simp
  then show ?thesis by (simp only: of_char_eq_iff)
qed

lemma after_colon_defined:
  assumes "startswith (lower line) ''sent:'' \<or> startswith (lower line) ''date:''
           \<or> startswith (lower line) ''subject:''"
  shows "CHR '':'' \<in> set line"
proof -
  have "CHR '':'' \<in> set (lower line)"
    using assms by (auto simp: startswith_Cons)
  then obtain c where c: "c \<in> set line" "lower_char c = CHR '':''"
    by (auto simp: lower_def)
  then show ?thesis using lower_char_colon by blast
qed

section \<open>First occurrence of a header\<close>

lemma for_lines_reach:
  "\<not> breaks parse h pre \<Longrightarrow>
     for_lines parse h (pre @ l # post) =
       (case loop_body parse (for_lines parse h pre) l of
          Break \<Rightarrow> for_lines parse h pre
        | Continue h' \<Rightarrow> for_lines parse h' post)"
  by (simp add: for_lines_append)










text \<open>The loop reads every line of a text in which no line holds a pattern of the two rules.\<close>

lemma no_rule_line_no_break:
  assumes "\<forall>x\<in>set ls.
      (find_str (lower (strip x)) ''den'' = None \<or> find_str (lower (strip x)) ''skrev'' = None)
      \<and> find_str (lower (strip x)) ''*****************************'' = None
      \<and> find_str (lower (strip x)) ''the information contained in this communication is'' = None"
  shows "\<not> breaks parse h ls"
  using assms
proof (induction ls arbitrary: h)
  case Nil
  show ?case by simp
next
  case (Cons x xs)
  have nr: "\<not> (princess_reply h (strip x) \<or> epstein_disclaimer h (strip x))"
    using Cons.prems by (auto simp: princess_reply_def epstein_disclaimer_def)
  have nb: "loop_body parse h x \<noteq> Break"
    using nr by (cases rule: loop_body_cases[of x parse h]) simp_all
  then obtain h' where c: "loop_body parse h x = Continue h'"
    by (cases "loop_body parse h x") simp_all
  have "\<not> breaks parse h' xs"
    using Cons.prems by (intro Cons.IH) simp
  with c show ?case by simp
qed




section \<open>The early-termination rules\<close>

lemma rule_line_nonempty:
  "princess_reply h line \<or> epstein_disclaimer h line \<Longrightarrow> line \<noteq> []"
  by (auto simp: princess_reply_def epstein_disclaimer_def lower_def)

text \<open>
  Claim C4, as the code has it. The two rules are tested on a line that the scan reaches and
  that is not taken as a header value (it does not start with the keyword of a field that
  is still empty), with the From value found so far. Where one of them holds, the loop
  ends: the headers are those left by the lines before, so neither this line nor a later
  one is in Content.
\<close>

theorem early_termination_on_uncaptured_line:
  assumes "splitlines text = pre @ l # post"
    and "\<not> breaks parse init_headers pre"
    and "\<not> captures_from (for_lines parse init_headers pre) (strip l)"
    and "\<not> captures_to (for_lines parse init_headers pre) (strip l)"
    and "\<not> captures_sent (for_lines parse init_headers pre) (strip l)"
    and "\<not> captures_subject (for_lines parse init_headers pre) (strip l)"
    and "princess_reply (for_lines parse init_headers pre) (strip l)
         \<or> epstein_disclaimer (for_lines parse init_headers pre) (strip l)"
  shows "loop_body parse (for_lines parse init_headers pre) l = Break
     \<and> for_lines parse init_headers (splitlines text) = for_lines parse init_headers pre
     \<and> parse_first_email parse text =
         (if all_filled (for_lines parse init_headers pre)
          then Some (for_lines parse init_headers pre) else None)"
proof -
  define h where "h = for_lines parse init_headers pre"
  have ne: "strip l \<noteq> []"
    using assms(7) by (rule rule_line_nonempty)
  have brk: "loop_body parse h l = Break"
    using ne assms(3-7) unfolding h_def[symmetric]
    by (auto simp: loop_body_def Let_def)
  then have fin: "for_lines parse init_headers (splitlines text) = h"
    unfolding assms(1) h_def by (rule for_lines_break)
  have "parse_first_email parse text = (if all_filled h then Some h else None)"
    by (simp add: parse_first_email_def fin all_filled_def)
  with brk fin show ?thesis unfolding h_def by simp
qed

theorem early_termination_on_uncaptured_line_witness:
  "splitlines (join_lines [''From: Kronprinsessen'', ''To: a'', ''Sent: soon'', ''hi'',
        ''Den 3. mars kl. 10 skrev Ola:'', ''old text''])
     = [''From: Kronprinsessen'', ''To: a'', ''Sent: soon'', ''hi'']
         @ ''Den 3. mars kl. 10 skrev Ola:'' # [''old text'']
   \<and> \<not> breaks (\<lambda>s. Inl ParserError) init_headers
         [''From: Kronprinsessen'', ''To: a'', ''Sent: soon'', ''hi'']
   \<and> princess_reply (for_lines (\<lambda>s. Inl ParserError) init_headers
         [''From: Kronprinsessen'', ''To: a'', ''Sent: soon'', ''hi''])
        (strip ''Den 3. mars kl. 10 skrev Ola:'')
   \<and> parse_first_email (\<lambda>s. Inl ParserError)
        (join_lines [''From: Kronprinsessen'', ''To: a'', ''Sent: soon'', ''hi'',
        ''Den 3. mars kl. 10 skrev Ola:'', ''old text''])
      = Some \<lparr>From = ''Kronprinsessen'', To = ''a'', Sent = ''soon'', Subject = [],
               Content = '' \<newline>hi''\<rparr>"
proof -
  let ?P = "\<lambda>s::string. (Inl ParserError :: py_exception + datetime)"
  let ?pre = "[''From: Kronprinsessen'', ''To: a'', ''Sent: soon'', ''hi'']"
  let ?l = "''Den 3. mars kl. 10 skrev Ola:''"
  have a: "splitlines (join_lines [''From: Kronprinsessen'', ''To: a'', ''Sent: soon'', ''hi'',
        ''Den 3. mars kl. 10 skrev Ola:'', ''old text'']) = ?pre @ ?l # [''old text'']"
    by code_simp
  have b: "\<not> breaks ?P init_headers ?pre"
    by code_simp
  have h: "for_lines ?P init_headers ?pre =
      \<lparr>From = ''Kronprinsessen'', To = ''a'', Sent = ''soon'', Subject = [],
               Content = '' \<newline>hi''\<rparr>"
    by code_simp
  have c: "\<not> captures_from (for_lines ?P init_headers ?pre) (strip ?l)"
    "\<not> captures_to (for_lines ?P init_headers ?pre) (strip ?l)"
    "\<not> captures_sent (for_lines ?P init_headers ?pre) (strip ?l)"
    "\<not> captures_subject (for_lines ?P init_headers ?pre) (strip ?l)"
    by code_simp+
  have d: "princess_reply (for_lines ?P init_headers ?pre) (strip ?l)"
    by code_simp
  have f: "all_filled (for_lines ?P init_headers ?pre)"
    unfolding h by (simp add: all_filled_def)
  have "parse_first_email ?P
        (join_lines [''From: Kronprinsessen'', ''To: a'', ''Sent: soon'', ''hi'',
        ''Den 3. mars kl. 10 skrev Ola:'', ''old text''])
      = Some (for_lines ?P init_headers ?pre)"
    using early_termination_on_uncaptured_line [OF a b c disjI1 [OF d]] f by simp
  with a b d h show ?thesis by simp
qed

text \<open>
  Claim C4 as stated fails on a line that is taken as a header value: From holds the
  marker, the Subject line is the first that holds both reply-opener substrings, the scan
  goes on and the next line is in Content.
\<close>

theorem captured_line_skips_rules_counterexample:
  "parse_first_email (\<lambda>s. Inl ParserError)
      (join_lines [''From: Kronprinsessen'', ''To: a'', ''Sent: soon'',
                   ''Subject: Den som skrev'', ''hello''])
     = Some \<lparr>From = ''Kronprinsessen'', To = ''a'', Sent = ''soon'',
              Subject = ''Den som skrev'', Content = '' \<newline>hello''\<rparr>
   \<and> find_str (lower ''Kronprinsessen'') ''kronprinsessen'' \<noteq> None
   \<and> find_str (lower ''Subject: Den som skrev'') ''den'' \<noteq> None
   \<and> find_str (lower ''Subject: Den som skrev'') ''skrev'' \<noteq> None
   \<and> find_str (lower ''Sent: soon'') ''den'' = None
   \<and> find_str (lower ''To: a'') ''den'' = None
   \<and> find_str (lower ''From: Kronprinsessen'') ''skrev'' = None"
  by code_simp

section \<open>Content after the mandatory headers\<close>

lemma filled_From:
  assumes "\<not> breaks_unfilled parse h ls"
    and "From h \<noteq> [] \<or> (\<exists>l\<in>set ls. startswith (lower (strip l)) ''from:''
                                   \<and> header_value (drop 5 (strip l)) \<noteq> [])"
  shows "From (for_lines parse h ls) \<noteq> []"
  using assms
proof (induction ls arbitrary: h)
  case Nil
  then show ?case by simp
next
  case (Cons l ls)
  show ?case
  proof (cases "loop_body parse h l")
    case Break
    with Cons.prems(1) have "all_filled h" by simp
    with Break show ?thesis by (simp add: all_filled_def)
  next
    case (Continue h')
    with Cons.prems(1) have nb: "\<not> breaks_unfilled parse h' ls" by simp
    have "From h' \<noteq> [] \<or> (\<exists>l\<in>set ls. startswith (lower (strip l)) ''from:''
                                   \<and> header_value (drop 5 (strip l)) \<noteq> [])"
    proof (cases "From h = []")
      case False
      then have "From h' = From h" using Continue loop_body_stable(1) by blast
      with False show ?thesis by simp
    next
      case True
      show ?thesis
      proof (cases "startswith (lower (strip l)) ''from:''
                    \<and> header_value (drop 5 (strip l)) \<noteq> []")
        case hit: True
        then have "loop_body parse h l = Continue (h\<lparr>From := header_value (drop 5 (strip l))\<rparr>)"
          using True loop_body_from by blast
        with Continue have "h' = h\<lparr>From := header_value (drop 5 (strip l))\<rparr>" by simp
        then have "From h' = header_value (drop 5 (strip l))" by simp
        with hit show ?thesis by simp
      next
        case False
        with Cons.prems(2) True show ?thesis by auto
      qed
    qed
    with nb have "From (for_lines parse h' ls) \<noteq> []" by (rule Cons.IH)
    with Continue show ?thesis by simp
  qed
qed

lemma filled_To:
  assumes "\<not> breaks_unfilled parse h ls"
    and "To h \<noteq> [] \<or> (\<exists>l\<in>set ls. startswith (lower (strip l)) ''to:''
                                   \<and> header_value (drop 3 (strip l)) \<noteq> [])"
  shows "To (for_lines parse h ls) \<noteq> []"
  using assms
proof (induction ls arbitrary: h)
  case Nil
  then show ?case by simp
next
  case (Cons l ls)
  show ?case
  proof (cases "loop_body parse h l")
    case Break
    with Cons.prems(1) have "all_filled h" by simp
    with Break show ?thesis by (simp add: all_filled_def)
  next
    case (Continue h')
    with Cons.prems(1) have nb: "\<not> breaks_unfilled parse h' ls" by simp
    have "To h' \<noteq> [] \<or> (\<exists>l\<in>set ls. startswith (lower (strip l)) ''to:''
                                   \<and> header_value (drop 3 (strip l)) \<noteq> [])"
    proof (cases "To h = []")
      case False
      then have "To h' = To h" using Continue loop_body_stable(2) by blast
      with False show ?thesis by simp
    next
      case True
      show ?thesis
      proof (cases "startswith (lower (strip l)) ''to:''
                    \<and> header_value (drop 3 (strip l)) \<noteq> []")
        case hit: True
        then have "loop_body parse h l = Continue (h\<lparr>To := header_value (drop 3 (strip l))\<rparr>)"
          using True loop_body_to by blast
        with Continue have "h' = h\<lparr>To := header_value (drop 3 (strip l))\<rparr>" by simp
        then have "To h' = header_value (drop 3 (strip l))" by simp
        with hit show ?thesis by simp
      next
        case False
        with Cons.prems(2) True show ?thesis by auto
      qed
    qed
    with nb have "To (for_lines parse h' ls) \<noteq> []" by (rule Cons.IH)
    with Continue show ?thesis by simp
  qed
qed

lemma filled_Sent:
  assumes "\<not> breaks_unfilled parse h ls"
    and "Sent h \<noteq> [] \<or> (\<exists>l\<in>set ls. (startswith (lower (strip l)) ''sent:'' \<or> startswith (lower (strip l)) ''date:'')
                                   \<and> or_raw (normalize_date parse (header_value (after_colon (strip l)))) (header_value (after_colon (strip l))) \<noteq> [])"
  shows "Sent (for_lines parse h ls) \<noteq> []"
  using assms
proof (induction ls arbitrary: h)
  case Nil
  then show ?case by simp
next
  case (Cons l ls)
  show ?case
  proof (cases "loop_body parse h l")
    case Break
    with Cons.prems(1) have "all_filled h" by simp
    with Break show ?thesis by (simp add: all_filled_def)
  next
    case (Continue h')
    with Cons.prems(1) have nb: "\<not> breaks_unfilled parse h' ls" by simp
    have "Sent h' \<noteq> [] \<or> (\<exists>l\<in>set ls. (startswith (lower (strip l)) ''sent:'' \<or> startswith (lower (strip l)) ''date:'')
                                   \<and> or_raw (normalize_date parse (header_value (after_colon (strip l)))) (header_value (after_colon (strip l))) \<noteq> [])"
    proof (cases "Sent h = []")
      case False
      then have "Sent h' = Sent h" using Continue loop_body_stable(3) by blast
      with False show ?thesis by simp
    next
      case True
      show ?thesis
      proof (cases "(startswith (lower (strip l)) ''sent:'' \<or> startswith (lower (strip l)) ''date:'')
                    \<and> or_raw (normalize_date parse (header_value (after_colon (strip l)))) (header_value (after_colon (strip l))) \<noteq> []")
        case hit: True
        then have "loop_body parse h l = Continue (h\<lparr>Sent := or_raw (normalize_date parse (header_value (after_colon (strip l)))) (header_value (after_colon (strip l)))\<rparr>)"
          using True loop_body_sent by blast
        with Continue have "h' = h\<lparr>Sent := or_raw (normalize_date parse (header_value (after_colon (strip l)))) (header_value (after_colon (strip l)))\<rparr>" by simp
        then have "Sent h' = or_raw (normalize_date parse (header_value (after_colon (strip l)))) (header_value (after_colon (strip l)))" by simp
        with hit show ?thesis by simp
      next
        case False
        with Cons.prems(2) True show ?thesis by auto
      qed
    qed
    with nb have "Sent (for_lines parse h' ls) \<noteq> []" by (rule Cons.IH)
    with Continue show ?thesis by simp
  qed
qed

lemma content_step:
  assumes "loop_body parse h l = Continue h'"
  shows "Content h' = Content h
     \<or> (all_filled h \<and> Content h' = Content h @ '' '' @ [LF] @ clean_text (strip l))"
  using assms by (cases rule: loop_body_cases[of l parse h]) auto

lemma content_subseq:
  "\<exists>ks. subseq ks ls \<and>
     Content (for_lines parse h ls)
       = Content h @ concat (map (\<lambda>x. '' '' @ [LF] @ clean_text (strip x)) ks)"
proof (induction ls arbitrary: h)
  case Nil
  show ?case by (rule exI[of _ "[]"]) simp
next
  case (Cons l ls)
  show ?case
  proof (cases "loop_body parse h l")
    case Break
    show ?thesis by (rule exI[of _ "[]"]) (simp add: Break)
  next
    case (Continue h')
    obtain ks where ks: "subseq ks ls"
      "Content (for_lines parse h' ls)
         = Content h' @ concat (map (\<lambda>x. '' '' @ [LF] @ clean_text (strip x)) ks)"
      using Cons.IH[of h'] by blast
    from content_step[OF Continue] show ?thesis
    proof
      assume "Content h' = Content h"
      with ks Continue show ?thesis
        by (intro exI[of _ ks]) (simp add: list_emb_Cons)
    next
      assume "all_filled h \<and> Content h' = Content h @ '' '' @ [LF] @ clean_text (strip l)"
      with ks Continue show ?thesis
        by (intro exI[of _ "l # ks"]) simp
    qed
  qed
qed

lemma fill_point:
  assumes "\<not> all_filled h" and "all_filled (for_lines parse h ls)"
  shows "\<exists>pre l post h'. ls = pre @ l # post \<and> \<not> breaks parse h pre
           \<and> \<not> all_filled (for_lines parse h pre)
           \<and> loop_body parse (for_lines parse h pre) l = Continue h'
           \<and> all_filled h' \<and> Content h' = Content h"
  using assms
proof (induction ls arbitrary: h)
  case Nil
  then show ?case by simp
next
  case (Cons l ls)
  show ?case
  proof (cases "loop_body parse h l")
    case Break
    with Cons.prems show ?thesis by simp
  next
    case (Continue h')
    have ch: "Content h' = Content h"
      using content_step[OF Continue] Cons.prems(1) by blast
    show ?thesis
    proof (cases "all_filled h'")
      case True
      have "l # ls = [] @ l # ls \<and> \<not> breaks parse h []
           \<and> \<not> all_filled (for_lines parse h [])
           \<and> loop_body parse (for_lines parse h []) l = Continue h'
           \<and> all_filled h' \<and> Content h' = Content h"
        using Continue True ch Cons.prems(1) by simp
      then show ?thesis by blast
    next
      case False
      moreover have "all_filled (for_lines parse h' ls)"
        using Cons.prems(2) Continue by simp
      ultimately obtain pre k post h'' where p: "ls = pre @ k # post" "\<not> breaks parse h' pre"
        "\<not> all_filled (for_lines parse h' pre)"
        "loop_body parse (for_lines parse h' pre) k = Continue h''"
        "all_filled h''" "Content h'' = Content h'"
        using Cons.IH[of h'] by blast
      have "l # ls = (l # pre) @ k # post \<and> \<not> breaks parse h (l # pre)
           \<and> \<not> all_filled (for_lines parse h (l # pre))
           \<and> loop_body parse (for_lines parse h (l # pre)) k = Continue h''
           \<and> all_filled h'' \<and> Content h'' = Content h"
        using p Continue ch by simp
      then show ?thesis by blast
    qed
  qed
qed

text \<open>
  Claim C2, as the code has it. Let each of From, To and Sent occur on some line with its
  keyword and a non-empty cleaned value, in any order, and let no early-termination rule
  end the loop while one of the three is still empty. Then \<open>parse_first_email\<close> returns a
  record, and there is a line on which the last of the three fields was filled such that
  Content is made only of lines that come strictly after it: the pieces
  \<^verbatim>\<open>" \n" + clean_text(line)\<close> of a subsequence of the later lines, in their order.
\<close>

theorem content_follows_last_mandatory_header:
  assumes "\<exists>l\<in>set (splitlines text). startswith (lower (strip l)) ''from:''
              \<and> header_value (drop 5 (strip l)) \<noteq> []"
    and "\<exists>l\<in>set (splitlines text). startswith (lower (strip l)) ''to:''
              \<and> header_value (drop 3 (strip l)) \<noteq> []"
    and "\<exists>l\<in>set (splitlines text).
              (startswith (lower (strip l)) ''sent:'' \<or> startswith (lower (strip l)) ''date:'')
              \<and> or_raw (normalize_date parse (header_value (after_colon (strip l))))
                   (header_value (after_colon (strip l))) \<noteq> []"
    and "\<not> breaks_unfilled parse init_headers (splitlines text)"
  shows "\<exists>r pre l post ks.
            parse_first_email parse text = Some r
          \<and> splitlines text = pre @ l # post
          \<and> \<not> all_filled (for_lines parse init_headers pre)
          \<and> all_filled (for_lines parse init_headers (pre @ [l]))
          \<and> subseq ks post
          \<and> Content r = concat (map (\<lambda>x. '' '' @ [LF] @ clean_text (strip x)) ks)"
proof -
  define hf where "hf = for_lines parse init_headers (splitlines text)"
  have "From hf \<noteq> []" unfolding hf_def
    using assms(4) by (rule filled_From) (use assms(1) in blast)
  moreover have "To hf \<noteq> []" unfolding hf_def
    using assms(4) by (rule filled_To) (use assms(2) in blast)
  moreover have "Sent hf \<noteq> []" unfolding hf_def
    using assms(4) by (rule filled_Sent) (use assms(3) in blast)
  ultimately have af: "all_filled hf" by (simp add: all_filled_def)
  then have res: "parse_first_email parse text = Some hf"
    by (simp add: parse_first_email_def hf_def[symmetric] all_filled_def)
  have "\<not> all_filled init_headers"
    by (simp add: all_filled_def init_headers_def)
  then obtain pre l post h' where p: "splitlines text = pre @ l # post"
    "\<not> breaks parse init_headers pre"
    "\<not> all_filled (for_lines parse init_headers pre)"
    "loop_body parse (for_lines parse init_headers pre) l = Continue h'"
    "all_filled h'" "Content h' = Content init_headers"
    using fill_point[of init_headers parse "splitlines text"] af unfolding hf_def by blast
  have one: "for_lines parse init_headers (pre @ [l]) = h'"
    using for_lines_reach[OF p(2), of l "[]"] p(4) by simp
  have "hf = for_lines parse h' post"
    unfolding hf_def p(1) using for_lines_reach[OF p(2), of l post] p(4) by simp
  moreover obtain ks where "subseq ks post"
    "Content (for_lines parse h' post)
       = Content h' @ concat (map (\<lambda>x. '' '' @ [LF] @ clean_text (strip x)) ks)"
    using content_subseq[of post parse h'] by blast
  ultimately have "subseq ks post"
    "Content hf = concat (map (\<lambda>x. '' '' @ [LF] @ clean_text (strip x)) ks)"
    using p(6) by (simp_all add: init_headers_def)
  with res p(1,3,5) one show ?thesis by blast
qed

theorem content_follows_last_mandatory_header_witness:
  "(\<exists>l\<in>set (splitlines (join_lines [''To: Bob'', ''noise'', ''From: Alice'', ''Date: soon'',
                                        ''Hello'', [], ''World''])).
       startswith (lower (strip l)) ''from:'' \<and> header_value (drop 5 (strip l)) \<noteq> [])
   \<and> \<not> breaks_unfilled (\<lambda>s. Inl ParserError) init_headers
        (splitlines (join_lines [''To: Bob'', ''noise'', ''From: Alice'', ''Date: soon'',
                                 ''Hello'', [], ''World'']))
   \<and> parse_first_email (\<lambda>s. Inl ParserError)
        (join_lines [''To: Bob'', ''noise'', ''From: Alice'', ''Date: soon'',
                     ''Hello'', [], ''World''])
      = Some \<lparr>From = ''Alice'', To = ''Bob'', Sent = ''soon'', Subject = [],
               Content = '' \<newline>Hello \<newline>World''\<rparr>
   \<and> (\<exists>r pre l post ks.
          parse_first_email (\<lambda>s. Inl ParserError)
            (join_lines [''To: Bob'', ''noise'', ''From: Alice'', ''Date: soon'',
                         ''Hello'', [], ''World'']) = Some r
        \<and> splitlines (join_lines [''To: Bob'', ''noise'', ''From: Alice'', ''Date: soon'',
                                   ''Hello'', [], ''World'']) = pre @ l # post
        \<and> \<not> all_filled (for_lines (\<lambda>s. Inl ParserError) init_headers pre)
        \<and> all_filled (for_lines (\<lambda>s. Inl ParserError) init_headers (pre @ [l]))
        \<and> subseq ks post
        \<and> Content r = concat (map (\<lambda>x. '' '' @ [LF] @ clean_text (strip x)) ks))"
proof -
  let ?P = "\<lambda>s::string. (Inl ParserError :: py_exception + datetime)"
  let ?T = "join_lines [''To: Bob'', ''noise'', ''From: Alice'', ''Date: soon'',
                        ''Hello'', [], ''World'']"
  have a: "\<exists>l\<in>set (splitlines ?T).
       startswith (lower (strip l)) ''from:'' \<and> header_value (drop 5 (strip l)) \<noteq> []"
    by code_simp
  have b: "\<exists>l\<in>set (splitlines ?T).
       startswith (lower (strip l)) ''to:'' \<and> header_value (drop 3 (strip l)) \<noteq> []"
    by code_simp
  have c: "\<exists>l\<in>set (splitlines ?T).
       (startswith (lower (strip l)) ''sent:'' \<or> startswith (lower (strip l)) ''date:'')
       \<and> or_raw (normalize_date ?P (header_value (after_colon (strip l))))
            (header_value (after_colon (strip l))) \<noteq> []"
    by code_simp
  have d: "\<not> breaks_unfilled ?P init_headers (splitlines ?T)"
    by code_simp
  have e: "parse_first_email ?P ?T
      = Some \<lparr>From = ''Alice'', To = ''Bob'', Sent = ''soon'', Subject = [],
               Content = '' \<newline>Hello \<newline>World''\<rparr>"
    by code_simp
  show ?thesis
    using a d e content_follows_last_mandatory_header [OF a b c d] by blast
qed

text \<open>
  Claim C2 as stated fails when a header occurs with an empty value: the line \<^verbatim>\<open>From:\<close>
  matches the keyword, no rule ends the loop, and the result is \<open>None\<close>.
\<close>

theorem empty_header_value_counterexample:
  "splitlines (join_lines [''From:'', ''To: Bob'', ''Sent: soon''])
     = [''From:'', ''To: Bob'', ''Sent: soon'']
   \<and> startswith (lower (strip ''From:'')) ''from:''
   \<and> startswith (lower (strip ''To: Bob'')) ''to:''
   \<and> startswith (lower (strip ''Sent: soon'')) ''sent:''
   \<and> \<not> breaks (\<lambda>s. Inl ParserError) init_headers [''From:'', ''To: Bob'', ''Sent: soon'']
   \<and> parse_first_email (\<lambda>s. Inl ParserError)
        (join_lines [''From:'', ''To: Bob'', ''Sent: soon'']) = None"
  by code_simp

section \<open>Leftmost search and prefixes\<close>


lemma lower_append: "lower (u @ v) = lower u @ lower v"
  by (simp add: lower_def)

lemma length_lower: "length (lower s) = length s"
  by (simp add: lower_def)

lemma startswith_append: "startswith u p \<Longrightarrow> startswith (u @ v) p"
proof -
  assume a: "startswith u p"
  then have "length (take (length p) u) = length p"
    by (simp add: startswith_def)
  then have "length p \<le> length u" by simp
  with a show ?thesis by (simp add: startswith_def)
qed

lemma startswith_Nil_iff: "startswith [] p \<longleftrightarrow> p = []"
  by (auto simp: startswith_def)


lemma re_search_le: "re_search m q s = Some n \<Longrightarrow> n \<le> length s"
proof (induction s arbitrary: q n)
  case Nil
  then show ?case by (simp split: if_splits)
next
  case (Cons c cs)
  show ?case
  proof (cases "m q (c # cs)")
    case True
    with Cons.prems show ?thesis by simp
  next
    case False
    with Cons.prems obtain k where "re_search m (Some c) cs = Some k" "n = Suc k"
      by auto
    with Cons.IH show ?thesis by auto
  qed
qed

lemma re_search_prefix_None:
  assumes mono: "\<And>q u v. m q u \<Longrightarrow> m q (u @ v)"
  shows "re_search m q (u @ v) = None \<Longrightarrow> re_search m q u = None"
proof (induction u arbitrary: q)
  case Nil
  have "\<not> m q []"
  proof
    assume "m q []"
    then have "m q ([] @ v)" by (rule mono)
    with Nil show False by (cases v) simp_all
  qed
  then show ?case by simp
next
  case (Cons c cs)
  from Cons.prems have a: "\<not> m q (c # cs @ v)" "re_search m (Some c) (cs @ v) = None"
    by (simp_all split: if_splits)
  have "\<not> m q (c # cs)"
    using a(1) mono[of q "c # cs" v] by auto
  moreover have "re_search m (Some c) cs = None"
    using a(2) by (rule Cons.IH)
  ultimately show ?case by simp
qed

lemma re_search_cut_None:
  assumes mono: "\<And>q u v. m q u \<Longrightarrow> m q (u @ v)"
    and nonempty: "\<And>q. \<not> m q []"
  shows "re_search m q (u @ v) = Some (length u) \<Longrightarrow> re_search m q u = None"
proof (induction u arbitrary: q)
  case Nil
  show ?case by (simp add: nonempty)
next
  case (Cons c cs)
  from Cons.prems have a: "\<not> m q (c # cs @ v)"
    by (auto split: if_splits)
  with Cons.prems have b: "re_search m (Some c) (cs @ v) = Some (length cs)"
    by auto
  have "\<not> m q (c # cs)"
    using a mono[of q "c # cs" v] by auto
  moreover have "re_search m (Some c) cs = None"
    using b by (rule Cons.IH)
  ultimately show ?case by simp
qed

lemma cut_at_None:
  assumes mono: "\<And>q u v. m q u \<Longrightarrow> m q (u @ v)"
    and nonempty: "\<And>q. \<not> m q []"
  shows "re_search m q (cut_at (re_search m q s) s) = None"
proof (cases "re_search m q s")
  case None
  then show ?thesis by (simp add: cut_at_def)
next
  case (Some n)
  then have "n \<le> length s" by (rule re_search_le)
  then have "length (take n s) = n" by simp
  with Some have "re_search m q (take n s @ drop n s) = Some (length (take n s))"
    by simp
  then have "re_search m q (take n s) = None"
    using mono nonempty by (rule re_search_cut_None[rotated 2])
  with Some show ?thesis by (simp add: cut_at_def)
qed

lemma prefix_None:
  assumes mono: "\<And>q u v. m q u \<Longrightarrow> m q (u @ v)"
    and "prefix a b" and "re_search m q b = None"
  shows "re_search m q a = None"
proof -
  obtain v where "b = a @ v" using assms(2) by (auto simp: prefix_def)
  with assms(3) show ?thesis using mono re_search_prefix_None by blast
qed

lemma startswith_length: "startswith s p \<Longrightarrow> length p \<le> length s"
proof -
  assume "startswith s p"
  then have "length (take (length p) s) = length p"
    by (simp add: startswith_def)
  then show ?thesis by simp
qed

lemma startswith_lower_append:
  "startswith (lower u) p \<Longrightarrow> startswith (lower (u @ v)) p"
  by (simp add: lower_append startswith_append)

lemma lazy_dots_here: "k s \<Longrightarrow> lazy_dots k s"
  by (cases s) simp_all

lemma lazy_dots_append:
  assumes mono: "\<And>t. k t \<Longrightarrow> k (t @ v)"
  shows "lazy_dots k u \<Longrightarrow> lazy_dots k (u @ v)"
proof (induction u)
  case Nil
  then have "k []" by simp
  then have "k ([] @ v)" by (rule mono)
  then show ?case by (simp add: lazy_dots_here)
next
  case (Cons c cs)
  from Cons.prems have "k (c # cs) \<or> (c \<noteq> LF \<and> lazy_dots k cs)" by simp
  then show ?case
  proof
    assume "k (c # cs)"
    then have "k ((c # cs) @ v)" by (rule mono)
    then show ?thesis by simp
  next
    assume "c \<noteq> LF \<and> lazy_dots k cs"
    with Cons.IH show ?thesis by simp
  qed
qed

lemma norwegian_reply_append:
  assumes "norwegian_reply q u"
  shows "norwegian_reply q (u @ v)"
proof -
  let ?k2 = "\<lambda>u. startswith (lower u) ''skrev''"
  let ?k1 = "\<lambda>t. startswith (lower t) ''kl.'' \<and> lazy_dots ?k2 (drop 3 t)"
  have k2: "?k2 t \<Longrightarrow> ?k2 (t @ w)" for t w
    by (rule startswith_lower_append)
  have k1: "?k1 (t @ v)" if "?k1 t" for t
  proof -
    from that have "length (''kl.'' :: string) \<le> length (lower t)"
      using startswith_length by blast
    then have "3 \<le> length t" by (simp add: length_lower)
    then have "drop 3 (t @ v) = drop 3 t @ v" by simp
    moreover have "lazy_dots ?k2 (drop 3 t @ v)"
      using that k2 lazy_dots_append[of ?k2 v "drop 3 t"] by blast
    ultimately show ?thesis using that startswith_lower_append by simp
  qed
  from assms have a: "startswith (lower u) ''den''" "lazy_dots ?k1 (drop 3 u)"
    by (simp_all add: norwegian_reply_def)
  from a(1) have "length (''den'' :: string) \<le> length (lower u)"
    using startswith_length by blast
  then have "3 \<le> length u" by (simp add: length_lower)
  then have "drop 3 (u @ v) = drop 3 u @ v" by simp
  moreover have "lazy_dots ?k1 (drop 3 u @ v)"
    using a(2) k1 lazy_dots_append[of ?k1 v "drop 3 u"] by blast
  ultimately show ?thesis
    using a(1) startswith_lower_append by (simp add: norwegian_reply_def)
qed

lemma norwegian_reply_Nil: "\<not> norwegian_reply q []"
  by (simp add: norwegian_reply_def startswith_def lower_def)

text \<open>
  The English reply pattern ends in \<^verbatim>\<open>\b\<close>, which looks at the character after the match;
  what is left of its leftmost match still has no match, because that match starts at a
  word boundary.
\<close>

lemma isword_lower: "isword (lower_char c) = isword c"
  unfolding isword_def lower_char_def Let_def by auto

lemma isword_colon: "\<not> isword (CHR '':'')"
  by code_simp

lemma isword_of_lower_e: "lower_char c = CHR ''e'' \<Longrightarrow> isword c"
proof -
  assume "lower_char c = CHR ''e''"
  moreover have "isword (CHR ''e'')" by code_simp
  ultimately show ?thesis using isword_lower[of c] by simp
qed

lemma isword_of_lower_o: "lower_char c = CHR ''o'' \<Longrightarrow> isword c"
proof -
  assume "lower_char c = CHR ''o''"
  moreover have "isword (CHR ''o'')" by code_simp
  ultimately show ?thesis using isword_lower[of c] by simp
qed

lemma startswith_lower_Cons:
  "startswith (lower s) (a # p) \<longleftrightarrow>
     (\<exists>c cs. s = c # cs \<and> lower_char c = a \<and> startswith (lower cs) p)"
  by (cases s) (auto simp: startswith_Cons lower_def)

lemma startswith_lower_Nil: "startswith (lower s) []"
  by (simp add: startswith_def)

lemma word_boundary_append:
  "u \<noteq> [] \<Longrightarrow> word_boundary p (u @ v) = word_boundary p u"
  by (cases u) (simp_all add: word_boundary_def)

text \<open>
  A match found in a prefix is a match in the whole string, unless it ends at the end
  of the prefix on a word character and the string goes on with a word character.
\<close>

lemma wrote_at_append:
  assumes "wrote_at p u"
  shows "wrote_at p (u @ v) \<or> (isword (last u) \<and> v \<noteq> [] \<and> isword (hd v))"
proof -
  from assms have sw: "startswith (lower u) ''wrote''" and wb: "word_boundary p u"
    and tail: "startswith (drop 5 u) '':'' \<and> word_boundary (Some (CHR '':'')) (drop 6 u)
         \<or> word_boundary (Some (u ! 4)) (drop 5 u)"
    by (simp_all add: wrote_at_def)
  from sw obtain c1 c2 c3 c4 c5 r where u: "u = c1 # c2 # c3 # c4 # c5 # r"
    and e: "lower_char c5 = CHR ''e''"
    by (auto simp: startswith_lower_Cons)
  have we: "isword c5" using e by (rule isword_of_lower_e)
  have sw': "startswith (lower (u @ v)) ''wrote''"
    using sw by (rule startswith_lower_append)
  have wb': "word_boundary p (u @ v)"
    using wb u by (simp add: word_boundary_def)
  from tail show ?thesis
  proof
    assume a: "startswith (drop 5 u) '':'' \<and> word_boundary (Some (CHR '':'')) (drop 6 u)"
    then obtain r' where r: "r = CHR '':'' # r'"
      using u by (auto simp: startswith_Cons)
    with a u have "word_boundary (Some (CHR '':'')) r'" by simp
    then have "r' \<noteq> []"
      using isword_colon by (auto simp: word_boundary_def)
    then have "word_boundary (Some (CHR '':'')) (r' @ v) = word_boundary (Some (CHR '':'')) r'"
      by (rule word_boundary_append)
    with \<open>word_boundary (Some (CHR '':'')) r'\<close> u r sw' wb'
    have "wrote_at p (u @ v)"
      by (simp add: wrote_at_def startswith_def)
    then show ?thesis ..
  next
    assume b: "word_boundary (Some (u ! 4)) (drop 5 u)"
    with u have b': "word_boundary (Some c5) r" by simp
    show ?thesis
    proof (cases "r = []")
      case False
      then have "word_boundary (Some c5) (r @ v) = word_boundary (Some c5) r"
        by (rule word_boundary_append)
      with b' u sw' wb' have "wrote_at p (u @ v)"
        by (simp add: wrote_at_def)
      then show ?thesis ..
    next
      case True
      show ?thesis
      proof (cases "v \<noteq> [] \<and> isword (hd v)")
        case True
        with \<open>r = []\<close> u we show ?thesis by simp
      next
        case False
        then have "word_boundary (Some c5) v"
          using we by (cases v) (simp_all add: word_boundary_def)
        with \<open>r = []\<close> u sw' wb' have "wrote_at p (u @ v)"
          by (simp add: wrote_at_def)
        then show ?thesis ..
      qed
    qed
  qed
qed

lemma wrote_at_Nil: "\<not> wrote_at p []"
  by (simp add: wrote_at_def startswith_def lower_def)

lemma dots_wrote_here: "wrote_at p s \<Longrightarrow> dots_wrote p s"
  by (cases s) simp_all

lemma dots_wrote_Nil: "\<not> dots_wrote p []"
  by (simp add: wrote_at_Nil)

lemma dots_wrote_append:
  "dots_wrote p u \<Longrightarrow>
     dots_wrote p (u @ v) \<or> (u \<noteq> [] \<and> isword (last u) \<and> v \<noteq> [] \<and> isword (hd v))"
proof (induction u arbitrary: p)
  case Nil
  then show ?case by (simp add: wrote_at_Nil)
next
  case (Cons c cs)
  from Cons.prems have "wrote_at p (c # cs) \<or> (c \<noteq> LF \<and> dots_wrote (Some c) cs)" by simp
  then show ?case
  proof
    assume "wrote_at p (c # cs)"
    from wrote_at_append[OF this, of v] show ?thesis by auto
  next
    assume a: "c \<noteq> LF \<and> dots_wrote (Some c) cs"
    then have "dots_wrote (Some c) (cs @ v)
        \<or> (cs \<noteq> [] \<and> isword (last cs) \<and> v \<noteq> [] \<and> isword (hd v))"
      using Cons.IH by blast
    with a show ?thesis by auto
  qed
qed

lemma spaces_dots_wrote_here: "dots_wrote p s \<Longrightarrow> spaces_dots_wrote p s"
  by (cases s) simp_all

lemma spaces_dots_wrote_append:
  "spaces_dots_wrote p u \<Longrightarrow>
     spaces_dots_wrote p (u @ v) \<or> (u \<noteq> [] \<and> isword (last u) \<and> v \<noteq> [] \<and> isword (hd v))"
proof (induction u arbitrary: p)
  case Nil
  then show ?case by (simp add: wrote_at_Nil)
next
  case (Cons c cs)
  from Cons.prems have "dots_wrote p (c # cs) \<or> (isspace c \<and> spaces_dots_wrote (Some c) cs)"
    by simp
  then show ?case
  proof
    assume "dots_wrote p (c # cs)"
    from dots_wrote_append[OF this, of v] spaces_dots_wrote_here[of p "(c # cs) @ v"]
    show ?thesis by blast
  next
    assume a: "isspace c \<and> spaces_dots_wrote (Some c) cs"
    then have "spaces_dots_wrote (Some c) (cs @ v)
        \<or> (cs \<noteq> [] \<and> isword (last cs) \<and> v \<noteq> [] \<and> isword (hd v))"
      using Cons.IH by blast
    with a show ?thesis by auto
  qed
qed

lemma english_reply_Nil: "\<not> english_reply p []"
  by (simp add: english_reply_def startswith_def lower_def)

lemma english_reply_append:
  assumes "english_reply p u"
  shows "english_reply p (u @ v) \<or> (u \<noteq> [] \<and> isword (last u) \<and> v \<noteq> [] \<and> isword (hd v))"
proof -
  from assms have sw: "startswith (lower u) ''on''" and wb: "word_boundary p u"
    by (simp_all add: english_reply_def)
  from sw obtain c1 c2 r where u: "u = c1 # c2 # r"
    by (auto simp: startswith_lower_Cons)
  with assms obtain c cs where r: "r = c # cs" and sp: "isspace c"
    and m: "spaces_dots_wrote (Some c) cs"
    by (auto simp: english_reply_def split: list.splits)
  have sw': "startswith (lower (u @ v)) ''on''"
    using sw by (rule startswith_lower_append)
  have wb': "word_boundary p (u @ v)"
    using wb u by (simp add: word_boundary_def)
  from spaces_dots_wrote_append[OF m, of v] show ?thesis
  proof
    assume "spaces_dots_wrote (Some c) (cs @ v)"
    with u r sp sw' wb' have "english_reply p (u @ v)"
      by (simp add: english_reply_def)
    then show ?thesis ..
  next
    assume "cs \<noteq> [] \<and> isword (last cs) \<and> v \<noteq> [] \<and> isword (hd v)"
    with u r show ?thesis by simp
  qed
qed

lemma english_reply_starts_word:
  assumes "english_reply (Some c) v"
  shows "\<not> isword c"
proof -
  from assms have sw: "startswith (lower v) ''on''" and wb: "word_boundary (Some c) v"
    by (simp_all add: english_reply_def)
  from sw obtain o1 r where v: "v = o1 # r" and o: "lower_char o1 = CHR ''o''"
    by (auto simp: startswith_lower_Cons)
  have "isword o1" using o by (rule isword_of_lower_o)
  with wb v show ?thesis by (simp add: word_boundary_def)
qed

lemma re_search_found_at:
  "re_search m q (u @ v) = Some (length u) \<Longrightarrow>
     m (if u = [] then q else Some (last u)) v"
proof (induction u arbitrary: q)
  case Nil
  then show ?case by (cases v) (simp_all split: if_splits)
next
  case (Cons c cs)
  from Cons.prems have a: "\<not> m q (c # cs @ v)"
    by (auto split: if_splits)
  with Cons.prems have "re_search m (Some c) (cs @ v) = Some (length cs)"
    by auto
  then have "m (if cs = [] then Some c else Some (last cs)) v"
    by (rule Cons.IH)
  then show ?case by (cases "cs = []") simp_all
qed

lemma english_cut_None:
  "re_search english_reply q (u @ v) = Some (length u) \<Longrightarrow> re_search english_reply q u = None"
proof (induction u arbitrary: q)
  case Nil
  show ?case by (simp add: english_reply_Nil)
next
  case (Cons c cs)
  from Cons.prems have a: "\<not> english_reply q (c # cs @ v)"
    by (auto split: if_splits)
  with Cons.prems have b: "re_search english_reply (Some c) (cs @ v) = Some (length cs)"
    by auto
  have at: "english_reply (Some (last (c # cs))) v"
    using re_search_found_at[OF Cons.prems] by simp
  have "\<not> english_reply q (c # cs)"
  proof
    assume "english_reply q (c # cs)"
    from english_reply_append[OF this, of v] a
    have "isword (last (c # cs))" by auto
    with english_reply_starts_word[OF at] show False by simp
  qed
  moreover have "re_search english_reply (Some c) cs = None"
    using b by (rule Cons.IH)
  ultimately show ?case by simp
qed

lemma english_cut_at_None:
  "re_search english_reply q (cut_at (re_search english_reply q s) s) = None"
proof (cases "re_search english_reply q s")
  case None
  then show ?thesis by (simp add: cut_at_def)
next
  case (Some n)
  then have "n \<le> length s" by (rule re_search_le)
  then have "length (take n s) = n" by simp
  with Some have "re_search english_reply q (take n s @ drop n s) = Some (length (take n s))"
    by simp
  then have "re_search english_reply q (take n s) = None"
    by (rule english_cut_None)
  with Some show ?thesis by (simp add: cut_at_def)
qed

section \<open>Idempotence of remove\_trailing\_text\<close>

lemma find_lower_re_search:
  "find_str (lower s) p = re_search (\<lambda>q t. startswith (lower t) p) q s"
  by (induction s arbitrary: q) (simp_all add: lower_def startswith_Nil_iff)

lemma find_cut_None:
  assumes "p \<noteq> []"
  shows "find_str (lower (cut_at (find_str (lower s) p) s)) p = None"
proof -
  have "re_search (\<lambda>q t. startswith (lower t) p) None
          (cut_at (re_search (\<lambda>q t. startswith (lower t) p) None s) s) = None"
  proof (rule cut_at_None)
    show "startswith (lower u) p \<Longrightarrow> startswith (lower (u @ v)) p" for u v
      by (rule startswith_lower_append)
    show "\<not> startswith (lower []) p"
      using assms by (simp add: lower_def startswith_Nil_iff)
  qed
  then show ?thesis
    by (simp add: find_lower_re_search[where q = None])
qed

lemma find_prefix_None:
  assumes "prefix a b" and "find_str (lower b) p = None"
  shows "find_str (lower a) p = None"
proof -
  have "re_search (\<lambda>q t. startswith (lower t) p) None a = None"
  proof (rule prefix_None[OF _ assms(1)])
    show "startswith (lower u) p \<Longrightarrow> startswith (lower (u @ v)) p" for u v
      by (rule startswith_lower_append)
    show "re_search (\<lambda>q t. startswith (lower t) p) None b = None"
      using assms(2) by (simp add: find_lower_re_search[where q = None])
  qed
  then show ?thesis
    by (simp add: find_lower_re_search[where q = None])
qed

lemma norwegian_cut_None:
  "re_search norwegian_reply None (cut_at (re_search norwegian_reply None s) s) = None"
  by (rule cut_at_None) (simp_all add: norwegian_reply_append norwegian_reply_Nil)

lemma norwegian_prefix_None:
  "prefix a b \<Longrightarrow> re_search norwegian_reply None b = None \<Longrightarrow>
     re_search norwegian_reply None a = None"
  by (rule prefix_None[of norwegian_reply]) (simp_all add: norwegian_reply_append)

lemma take_find_None:
  assumes "p \<noteq> []" and "find_str (lower s) p = Some d"
  shows "find_str (lower (take d s)) p = None"
  using find_cut_None[OF assms(1), of s] assms(2) by (simp add: cut_at_def)

text \<open>What is left after the five cuts holds none of the patterns.\<close>

lemma remove_trailing_text_fixed:
  assumes "find_str (lower e) ''the information contained in this'' = None"
    and "find_str (lower e) ''sent from my '' = None"
    and "find_str (lower e) ''sendt fra min '' = None"
    and "re_search norwegian_reply None e = None"
    and "re_search english_reply None e = None"
  shows "remove_trailing_text e = filter (\<lambda>c. c \<noteq> CHR ''*'') e"
  using assms
  by (simp add: remove_trailing_text_def cut_at_def replace_def replace_star)

lemma remove_trailing_text_cuts:
  "\<exists>e. prefix e body
     \<and> remove_trailing_text body = filter (\<lambda>c. c \<noteq> CHR ''*'') e
     \<and> find_str (lower e) ''the information contained in this'' = None
     \<and> find_str (lower e) ''sent from my '' = None
     \<and> find_str (lower e) ''sendt fra min '' = None
     \<and> re_search norwegian_reply None e = None
     \<and> re_search english_reply None e = None"
proof -
  define e1 where "e1 = (case find_str (lower body) ''the information contained in this'' of
                  None \<Rightarrow> body
                | Some disclaimer_index \<Rightarrow>
                    (let e = take disclaimer_index body
                     in cut_at (find_str (lower e) ''please note'') e))"
  define e2 where "e2 = cut_at (find_str (lower e1) ''sent from my '') e1"
  define e3 where "e3 = cut_at (find_str (lower e2) ''sendt fra min '') e2"
  define e4 where "e4 = cut_at (re_search norwegian_reply None e3) e3"
  define e5 where "e5 = cut_at (re_search english_reply None e4) e4"
  have p1: "prefix e1 body"
    unfolding e1_def
    by (auto split: option.splits simp: Let_def take_is_prefix
          intro: prefix_order.trans[OF cut_at_prefix])
  have p54: "prefix e5 e4" and p43: "prefix e4 e3" and p32: "prefix e3 e2" and p21: "prefix e2 e1"
    unfolding e5_def e4_def e3_def e2_def by (rule cut_at_prefix)+
  have p53: "prefix e5 e3" using p54 p43 by (rule prefix_order.trans)
  have p52: "prefix e5 e2" using p53 p32 by (rule prefix_order.trans)
  have p51: "prefix e5 e1" using p52 p21 by (rule prefix_order.trans)
  have p5: "prefix e5 body" using p51 p1 by (rule prefix_order.trans)
  have n1: "find_str (lower e1) ''the information contained in this'' = None"
  proof (cases "find_str (lower body) ''the information contained in this''")
    case None
    then show ?thesis by (simp add: e1_def)
  next
    case (Some d)
    then have "find_str (lower (take d body)) ''the information contained in this'' = None"
      by (intro take_find_None) simp_all
    moreover have "prefix e1 (take d body)"
      using Some by (simp add: e1_def Let_def cut_at_prefix)
    ultimately show ?thesis by (rule find_prefix_None[rotated])
  qed
  have n2: "find_str (lower e2) ''sent from my '' = None"
    unfolding e2_def by (rule find_cut_None) simp
  have n3: "find_str (lower e3) ''sendt fra min '' = None"
    unfolding e3_def by (rule find_cut_None) simp
  have n4: "re_search norwegian_reply None e4 = None"
    unfolding e4_def by (rule norwegian_cut_None)
  have n5: "re_search english_reply None e5 = None"
    unfolding e5_def by (rule english_cut_at_None)
  have "remove_trailing_text body = filter (\<lambda>c. c \<noteq> CHR ''*'') e5"
    unfolding remove_trailing_text_def Let_def e1_def e2_def e3_def e4_def e5_def
    by (simp add: replace_def replace_star Let_def)
  moreover have "find_str (lower e5) ''the information contained in this'' = None"
    using p51 n1 by (rule find_prefix_None)
  moreover have "find_str (lower e5) ''sent from my '' = None"
    using p52 n2 by (rule find_prefix_None)
  moreover have "find_str (lower e5) ''sendt fra min '' = None"
    using p53 n3 by (rule find_prefix_None)
  moreover have "re_search norwegian_reply None e5 = None"
    using p54 n4 by (rule norwegian_prefix_None)
  ultimately show ?thesis using p5 n5 by blast
qed

lemma remove_trailing_text_fixed_point:
  assumes "CHR ''*'' \<notin> set body"
  shows "remove_trailing_text (remove_trailing_text body) = remove_trailing_text body"
proof -
  obtain e where e: "prefix e body"
    "remove_trailing_text body = filter (\<lambda>c. c \<noteq> CHR ''*'') e"
    "find_str (lower e) ''the information contained in this'' = None"
    "find_str (lower e) ''sent from my '' = None"
    "find_str (lower e) ''sendt fra min '' = None"
    "re_search norwegian_reply None e = None"
    "re_search english_reply None e = None"
    using remove_trailing_text_cuts by blast
  have "set e \<subseteq> set body" using e(1) by (rule set_mono_prefix)
  with assms have "CHR ''*'' \<notin> set e" by blast
  then have id: "filter (\<lambda>c. c \<noteq> CHR ''*'') e = e"
    by (auto simp: filter_id_conv)
  have "remove_trailing_text e = filter (\<lambda>c. c \<noteq> CHR ''*'') e"
    using e(3-7) by (rule remove_trailing_text_fixed)
  with e(2) id show ?thesis by simp
qed

text \<open>
  Claim C5, as the code has it. \<open>remove_trailing_text\<close> is idempotent on every body that
  holds no asterisk. Its output never holds one, so for every body the second application
  gives a fixed point.
\<close>

theorem remove_trailing_text_idempotent_without_stars:
  "(CHR ''*'' \<notin> set body \<longrightarrow>
      remove_trailing_text (remove_trailing_text body) = remove_trailing_text body)
   \<and> remove_trailing_text (remove_trailing_text (remove_trailing_text body))
       = remove_trailing_text (remove_trailing_text body)"
proof -
  obtain p where "remove_trailing_text body = filter (\<lambda>c. c \<noteq> CHR ''*'') p"
    using remove_trailing_text_prefix by blast
  then have "CHR ''*'' \<notin> set (remove_trailing_text body)" by simp
  then have "remove_trailing_text (remove_trailing_text (remove_trailing_text body))
       = remove_trailing_text (remove_trailing_text body)"
    by (rule remove_trailing_text_fixed_point)
  then show ?thesis
    using remove_trailing_text_fixed_point by blast
qed

theorem remove_trailing_text_idempotent_without_stars_witness:
  "CHR ''*'' \<notin> set '' \<newline>Hello there \<newline>Sent from my iPhone''
   \<and> remove_trailing_text '' \<newline>Hello there \<newline>Sent from my iPhone'' = '' \<newline>Hello there \<newline>''
   \<and> remove_trailing_text (remove_trailing_text '' \<newline>Hello there \<newline>Sent from my iPhone'')
       = remove_trailing_text '' \<newline>Hello there \<newline>Sent from my iPhone''"
proof -
  have a: "CHR ''*'' \<notin> set '' \<newline>Hello there \<newline>Sent from my iPhone''"
    by simp
  have b: "remove_trailing_text '' \<newline>Hello there \<newline>Sent from my iPhone''
      = '' \<newline>Hello there \<newline>''"
    by code_simp
  show ?thesis
    using a b
      remove_trailing_text_idempotent_without_stars
        [of "'' \<newline>Hello there \<newline>Sent from my iPhone''"]
    by blast
qed

text \<open>
  Claim C5 as stated fails where the deletion of the asterisks makes a pattern appear: the
  first application finds no mobile-signature marker and deletes the asterisk, the second
  one finds the marker at the start and cuts everything.
\<close>

theorem stars_break_idempotence_counterexample:
  "remove_trailing_text ''sent *from my phone'' = ''sent from my phone''
   \<and> remove_trailing_text (remove_trailing_text ''sent *from my phone'') = []"
  by code_simp

section \<open>The cut at the please-note marker\<close>








end
